theory Spec2Isabelle
  imports Main "HOL-Library.Char_ord" "HOL-Library.List_Lexorder"
begin

section \<open>Common Python and JavaScript notions\<close>

text \<open>
  A Python \<open>str\<close> and a JavaScript string are modelled as \<^typ>\<open>string\<close>; one \<^typ>\<open>char\<close>
  stands for one character of the source string, so \<^const>\<open>length\<close> is Python's \<open>len\<close>.
  Strings are compared as Python compares them: lexicographically, character by character.
\<close>

datatype error = IndexError | TypeError | ValueError | RuntimeError | DriverError

text \<open>
  A \<open>datetime\<close> is either aware (it carries a UTC offset; the number is the instant) or
  naive (the number is the wall-clock reading). Python refuses to order an aware value
  against a naive one.
\<close>

datatype datetime = Aware int | Naive int

fun dt_key :: "datetime \<Rightarrow> int" where
  "dt_key (Aware t) = t"
| "dt_key (Naive t) = t"

fun is_aware :: "datetime \<Rightarrow> bool" where
  "is_aware (Aware t) = True"
| "is_aware (Naive t) = False"

record DiscordMessage =
  m_id :: string
  m_content :: string
  m_author_name :: string
  m_author_id :: string
  m_channel_id :: string
  m_timestamp :: datetime
  m_attachments :: "string list"

text \<open>Slicing \<open>xs[i:j]\<close>: a negative bound counts from the end, and both bounds are clamped.\<close>

definition slice_bound :: "int \<Rightarrow> int \<Rightarrow> int" where
  "slice_bound n i = (if i < 0 then max (i + n) 0 else min i n)"

definition py_slice :: "'a list \<Rightarrow> int \<Rightarrow> int \<Rightarrow> 'a list" where
  "py_slice xs i j =
     (let n = int (length xs); lo = slice_bound n i; hi = slice_bound n j
      in take (nat (hi - lo)) (drop (nat lo) xs))"

text \<open>Indexing \<open>xs[i]\<close> raises IndexError out of range.\<close>

definition py_get :: "'a list \<Rightarrow> int \<Rightarrow> error + 'a" where
  "py_get xs i =
     (if 0 \<le> i \<and> i < int (length xs) then Inr (xs ! nat i)
      else if i < 0 \<and> - int (length xs) \<le> i then Inr (xs ! nat (int (length xs) + i))
      else Inl IndexError)"

text \<open>\<open>sub in s\<close> on strings: \<open>sub\<close> occurs in \<open>s\<close> as a contiguous run.\<close>

definition starts_with :: "string \<Rightarrow> string \<Rightarrow> bool" where
  "starts_with s p = (take (length p) s = p)"

fun contains :: "string \<Rightarrow> string \<Rightarrow> bool" where
  "contains [] sub = (sub = [])"
| "contains (c # cs) sub = (starts_with (c # cs) sub \<or> contains cs sub)"

text \<open>
  The characters \<open>str.isspace\<close> accepts, and \<open>s.strip()\<close>, which drops them from both ends.
\<close>

definition py_isspace :: "char \<Rightarrow> bool" where
  "py_isspace c = (c \<in> {CHR 0x09, CHR 0x0A, CHR 0x0B, CHR 0x0C, CHR 0x0D, CHR 0x1C, CHR 0x1D,
                         CHR 0x1E, CHR 0x1F, CHR 0x20, CHR 0x85, CHR 0xA0})"

definition py_strip :: "string \<Rightarrow> string" where
  "py_strip s = rev (dropWhile py_isspace (rev (dropWhile py_isspace s)))"


section \<open>Context window around a search hit (get_search_result_context)\<close>

text \<open>One record of \<open>messages_data\<close>, as the in-page script returns it.\<close>

record message_data =
  md_id :: string
  md_author :: string
  md_content :: string
  md_timestamp :: string
  md_index :: nat

record MessageContext =
  target_message :: DiscordMessage
  messages_before :: "DiscordMessage list"
  messages_after :: "DiscordMessage list"
  channel_name :: string
  channel_id :: string

text \<open>
  \<open>target_idx = len(messages_data) // 2\<close>, replaced by the index of the first record whose
  id contains the (non-empty) id taken from the URL.
\<close>

fun find_by_id :: "string \<Rightarrow> message_data list \<Rightarrow> nat \<Rightarrow> nat option" where
  "find_by_id target_message_id [] i = None"
| "find_by_id target_message_id (msg # rest) i =
     (if target_message_id \<noteq> [] \<and> contains (md_id msg) target_message_id then Some i
      else find_by_id target_message_id rest (Suc i))"

definition find_target_idx :: "string \<Rightarrow> message_data list \<Rightarrow> nat" where
  "find_target_idx target_message_id messages_data =
     (case find_by_id target_message_id messages_data 0 of
        Some i \<Rightarrow> i
      | None \<Rightarrow> length messages_data div 2)"

text \<open>
  \<open>make_message\<close>: the timestamp is \<open>datetime.now(timezone.utc)\<close> unless the record has a
  non-empty timestamp that \<open>datetime.fromisoformat\<close> accepts once every \<open>Z\<close> is replaced by
  \<open>+00:00\<close>. The parser (\<open>None\<close> is its ValueError) and the clock reading are parameters.
\<close>

definition replace_Z :: "string \<Rightarrow> string" where
  "replace_Z s = concat (map (\<lambda>c. if c = CHR ''Z'' then ''+00:00'' else [c]) s)"

definition make_message ::
  "(string \<Rightarrow> datetime option) \<Rightarrow> datetime \<Rightarrow> string \<Rightarrow> message_data \<Rightarrow> DiscordMessage" where
  "make_message fromisoformat now chan data =
     (let ts = (if md_timestamp data \<noteq> []
                then (case fromisoformat (replace_Z (md_timestamp data)) of
                        Some t \<Rightarrow> t
                      | None \<Rightarrow> now)
                else now)
      in \<lparr>m_id = md_id data, m_content = md_content data, m_author_name = md_author data,
          m_author_id = ''unknown'', m_channel_id = chan, m_timestamp = ts,
          m_attachments = []\<rparr>)"

text \<open>
  The slicing itself: \<open>before_start = max(0, target_idx - before_count)\<close>,
  \<open>after_end = min(len(messages_data), target_idx + after_count + 1)\<close>, then the two slices
  and the indexed target.
\<close>

definition context_slices ::
  "('d \<Rightarrow> 'm) \<Rightarrow> 'd list \<Rightarrow> nat \<Rightarrow> int \<Rightarrow> int \<Rightarrow> error + ('m list \<times> 'm \<times> 'm list)" where
  "context_slices mk messages_data target_idx before_count after_count =
     (let before_start = max 0 (int target_idx - before_count);
          after_end = min (int (length messages_data)) (int target_idx + after_count + 1);
          msgs_before = map mk (py_slice messages_data before_start (int target_idx))
      in case py_get messages_data (int target_idx) of
           Inl e \<Rightarrow> Inl e
         | Inr d \<Rightarrow>
             Inr (msgs_before, mk d,
                  map mk (py_slice messages_data (int target_idx + 1) after_end)))"

text \<open>
  The tail of \<open>get_search_result_context\<close>, from the extracted records on: no records give
  \<open>None\<close>; otherwise the context is built around the target. The channel name is the
  first entry of \<open>in_channels\<close> or, when there is none or it is empty, the name the script
  reads from the page header (\<open>header_name\<close>); it is stored stripped.
\<close>

definition build_context ::
  "(string \<Rightarrow> datetime option) \<Rightarrow> datetime \<Rightarrow> string \<Rightarrow> string list option \<Rightarrow> string \<Rightarrow>
     string \<Rightarrow> message_data list \<Rightarrow> int \<Rightarrow> int \<Rightarrow> error + MessageContext option" where
  "build_context fromisoformat now chan_id in_channels header_name target_message_id
       messages_data before_count after_count =
     (if messages_data = [] then Inr None
      else
        case context_slices (make_message fromisoformat now chan_id) messages_data
               (find_target_idx target_message_id messages_data) before_count after_count of
          Inl e \<Rightarrow> Inl e
        | Inr (b, t, a) \<Rightarrow>
            (let first_channel = (case in_channels of Some (c # cs) \<Rightarrow> c | _ \<Rightarrow> []);
                 chan_name = (if first_channel = [] then header_name else first_channel)
             in Inr (Some \<lparr>target_message = t, messages_before = b, messages_after = a,
                            channel_name = py_strip chan_name, channel_id = chan_id\<rparr>)))"

section \<open>In-page text helpers (JavaScript)\<close>

text \<open>
  The characters \<open>trim()\<close> removes and \<open>\s\<close> matches: tab, line feed, vertical tab, form
  feed, carriage return, space and the no-break space.
\<close>

definition js_space :: "char \<Rightarrow> bool" where
  "js_space c = (c \<in> {CHR 0x09, CHR 0x0A, CHR 0x0B, CHR 0x0C, CHR 0x0D, CHR 0x20, CHR 0xA0})"

definition js_trim :: "string \<Rightarrow> string" where
  "js_trim s = rev (dropWhile js_space (rev (dropWhile js_space s)))"

definition is_digit :: "char \<Rightarrow> bool" where
  "is_digit c = (c \<in> set ''0123456789'')"

text \<open>\<open>/^[0-9]+$/.test(s)\<close> and \<open>s.match(/^\d+$/)\<close>: one digit or more, and nothing else.\<close>

definition all_digits :: "string \<Rightarrow> bool" where
  "all_digits s = (s \<noteq> [] \<and> list_all is_digit s)"

text \<open>\<open>s.replace(pat, rep)\<close> with a string pattern replaces the first occurrence only.\<close>

fun replace_first :: "string \<Rightarrow> string \<Rightarrow> string \<Rightarrow> string" where
  "replace_first pat rep [] = (if pat = [] then rep else [])"
| "replace_first pat rep (c # cs) =
     (if starts_with (c # cs) pat then rep @ drop (length pat) (c # cs)
      else c # replace_first pat rep cs)"

text \<open>\<open>s.replace(/\s+/g, ' ')\<close>: every maximal run of white space becomes one space.\<close>

function collapse_ws :: "string \<Rightarrow> string" where
  "collapse_ws [] = []"
| "collapse_ws (c # cs) =
     (if js_space c then CHR 0x20 # collapse_ws (dropWhile js_space cs)
      else c # collapse_ws cs)"
  by pat_completeness auto
termination
  by (relation "measure length") (auto simp: less_Suc_eq_le length_dropWhile_le)

text \<open>
  \<open>s.replace(/^\d+\s+mentions?,\s*/, '')\<close>: a leading mention count such as
  \<open>3 mentions, \<close> is removed; a string that does not start that way is unchanged.
\<close>

definition strip_mentions :: "string \<Rightarrow> string" where
  "strip_mentions s =
     (let r1 = dropWhile is_digit s; r2 = dropWhile js_space r1; r3 = drop 7 r2
      in if takeWhile is_digit s \<noteq> [] \<and> takeWhile js_space r1 \<noteq> []
            \<and> starts_with r2 ''mention''
         then (if starts_with r3 ''s,'' then dropWhile js_space (drop 2 r3)
               else if starts_with r3 '','' then dropWhile js_space (drop 1 r3)
               else s)
         else s)"


section \<open>Guild extraction (get_guilds)\<close>

text \<open>
  What the in-page script reads of one tree item: its \<open>data-list-item-id\<close> attribute
  (\<open>None\<close> when absent), the \<open>textContent\<close> of each descendant element in document order,
  and its own \<open>textContent\<close>.
\<close>

record tree_item =
  data_list_item_id :: "string option"
  descendant_texts :: "string option list"
  item_text :: "string option"

record guild_data =
  gd_id :: string
  gd_name :: string

record DiscordGuild =
  g_id :: string
  g_name :: string
  g_icon :: "string option"

definition plausible_name :: "string \<Rightarrow> bool" where
  "plausible_name text =
     (text \<noteq> [] \<and> 2 < length text \<and> length text < 100
      \<and> \<not> contains text ''notification'' \<and> \<not> contains text ''unread''
      \<and> \<not> all_digits text)"

fun first_plausible :: "string option list \<Rightarrow> string option" where
  "first_plausible [] = None"
| "first_plausible (e # es) =
     (case map_option js_trim e of
        Some text \<Rightarrow> if plausible_name text then Some text else first_plausible es
      | None \<Rightarrow> first_plausible es)"

text \<open>The name the script settles on; \<open>None\<close> is JavaScript's \<open>null\<close>.\<close>

definition guild_name :: "tree_item \<Rightarrow> string option" where
  "guild_name item =
     (let found = first_plausible (descendant_texts item);
          fallback =
            (case found of
               Some n \<Rightarrow> Some n
             | None \<Rightarrow>
                 (case map_option js_trim (item_text item) of
                    Some fullText \<Rightarrow>
                      if fullText \<noteq> [] then Some (js_trim (collapse_ws (strip_mentions fullText)))
                      else None
                  | None \<Rightarrow> None))
      in case fallback of
           Some n \<Rightarrow> if n \<noteq> [] then Some (js_trim (strip_mentions n)) else Some n
         | None \<Rightarrow> None)"

text \<open>The \<open>forEach\<close> over the tree items, with the array \<open>guilds\<close> built so far.\<close>

fun extract_guilds :: "tree_item list \<Rightarrow> guild_data list \<Rightarrow> guild_data list" where
  "extract_guilds [] guilds = guilds"
| "extract_guilds (item # rest) guilds =
     extract_guilds rest
       (case data_list_item_id item of
          None \<Rightarrow> guilds
        | Some listItemId \<Rightarrow>
            if starts_with listItemId ''guildsnav___'' \<and> listItemId \<noteq> ''guildsnav___home''
            then (let guildId = replace_first ''guildsnav___'' [] listItemId
                  in if all_digits guildId
                     then (case guild_name item of
                             Some guildName \<Rightarrow>
                               if guildName \<noteq> [] \<and> guildId \<notin> set (map gd_id guilds)
                               then guilds @ [\<lparr>gd_id = guildId, gd_name = guildName\<rparr>]
                               else guilds
                           | None \<Rightarrow> guilds)
                     else guilds)
            else guilds)"

text \<open>\<open>get_guilds\<close>, from the tree items the page shows: the script, then the conversion.\<close>

definition get_guilds :: "tree_item list \<Rightarrow> DiscordGuild list" where
  "get_guilds tree_items =
     map (\<lambda>guild_data. \<lparr>g_id = gd_id guild_data, g_name = gd_name guild_data, g_icon = None\<rparr>)
       (extract_guilds tree_items [])"


section \<open>Channel extraction and merge (get_guild_channels)\<close>

record link =
  href :: string
  link_text :: "string option"

record channel_data =
  cd_id :: string
  cd_name :: string
  cd_href :: string

record DiscordChannel =
  c_id :: string
  c_name :: string
  c_type :: int
  c_guild_id :: "string option"

text \<open>
  The script's pattern \<open>/\/channels\/{guild_id}\/([0-9]+)/\<close> has the guild id spliced into
  it, so what it matches depends on that string read as a pattern. The extraction takes
  the matcher as a parameter: applied to the guild id and an href it gives the captured
  group, or \<open>None\<close> when there is no match. For a guild id without pattern metacharacters
  the matcher is \<open>match_channel_href\<close>: the leftmost place where
  \<open>/channels/<guild_id>/\<close> is followed by a digit, and the digits from there.
\<close>

fun find_channel_id :: "string \<Rightarrow> string \<Rightarrow> string option" where
  "find_channel_id pre [] = None"
| "find_channel_id pre (c # cs) =
     (if starts_with (c # cs) pre \<and> takeWhile is_digit (drop (length pre) (c # cs)) \<noteq> []
      then Some (takeWhile is_digit (drop (length pre) (c # cs)))
      else find_channel_id pre cs)"

definition match_channel_href :: "string \<Rightarrow> string \<Rightarrow> string option" where
  "match_channel_href guild_id h = find_channel_id (''/channels/'' @ guild_id @ ''/'') h"

text \<open>A character of the class \<open>[a-zA-Z0-9#-_]\<close>; \<open>#-_\<close> is the range from \<open>#\<close> to \<open>_\<close>.\<close>

definition name_char :: "char \<Rightarrow> bool" where
  "name_char c =
     ((CHR ''a'' \<le> c \<and> c \<le> CHR ''z'') \<or> (CHR ''A'' \<le> c \<and> c \<le> CHR ''Z'')
      \<or> (CHR ''0'' \<le> c \<and> c \<le> CHR ''9'') \<or> (CHR ''#'' \<le> c \<and> c \<le> CHR ''_''))"

definition clean_link_text :: "string option \<Rightarrow> string" where
  "clean_link_text t =
     (let name = (case t of Some s \<Rightarrow> js_trim s | None \<Rightarrow> []);
          name = js_trim (dropWhile (\<lambda>c. \<not> name_char c) name)
      in js_trim (collapse_ws name))"

fun extract_channels ::
  "(string \<Rightarrow> string option) \<Rightarrow> link list \<Rightarrow> string set \<Rightarrow> channel_data list \<Rightarrow> channel_data list" where
  "extract_channels href_match [] seenIds channels = channels"
| "extract_channels href_match (l # links) seenIds channels =
     (case href_match (href l) of
        None \<Rightarrow> extract_channels href_match links seenIds channels
      | Some channelId \<Rightarrow>
          if channelId \<notin> seenIds
          then (let name = clean_link_text (link_text l)
                in extract_channels href_match links (insert channelId seenIds)
                     (channels @ [\<lparr>cd_id = channelId,
                                   cd_name = (if name \<noteq> [] then name else ''channel-'' @ channelId),
                                   cd_href = href l\<rparr>]))
          else extract_channels href_match links seenIds channels)"

text \<open>
  Step 3 of \<open>get_guild_channels\<close>: the first loop stores every original channel in the
  dict \<open>all_channels\<close> and appends it; the second appends a browse channel when its id is
  not a key of the dict.
\<close>

fun add_original ::
  "channel_data list \<Rightarrow> (string \<rightharpoonup> channel_data) \<Rightarrow> channel_data list \<Rightarrow>
     (string \<rightharpoonup> channel_data) \<times> channel_data list" where
  "add_original [] all_channels final_channels = (all_channels, final_channels)"
| "add_original (ch # rest) all_channels final_channels =
     add_original rest (all_channels(cd_id ch \<mapsto> ch)) (final_channels @ [ch])"

fun add_browse ::
  "channel_data list \<Rightarrow> (string \<rightharpoonup> channel_data) \<Rightarrow> channel_data list \<Rightarrow> channel_data list" where
  "add_browse [] all_channels final_channels = final_channels"
| "add_browse (ch # rest) all_channels final_channels =
     add_browse rest all_channels
       (if all_channels (cd_id ch) = None then final_channels @ [ch] else final_channels)"

definition merge_channels :: "channel_data list \<Rightarrow> channel_data list \<Rightarrow> channel_data list" where
  "merge_channels original_channels browse_channels =
     (case add_original original_channels Map.empty [] of
        (all_channels, final_channels) \<Rightarrow> add_browse browse_channels all_channels final_channels)"

text \<open>
  \<open>get_guild_channels\<close>, from the links the page shows: \<open>browse_links\<close> is \<open>None\<close> when
  there is no visible Browse Channels control or that step raised, which leaves
  \<open>browse_channels\<close> empty.
\<close>

definition get_guild_channels ::
  "(string \<Rightarrow> string \<Rightarrow> string option) \<Rightarrow> string \<Rightarrow> link list \<Rightarrow> link list option \<Rightarrow>
     DiscordChannel list" where
  "get_guild_channels channel_regex guild_id page_links browse_links =
     (let original_channels = extract_channels (channel_regex guild_id) page_links {} [];
          browse_channels =
            (case browse_links of
               None \<Rightarrow> []
             | Some links \<Rightarrow> extract_channels (channel_regex guild_id) links {} [])
      in map (\<lambda>ch. \<lparr>c_id = cd_id ch, c_name = cd_name ch, c_type = 0, c_guild_id = Some guild_id\<rparr>)
           (merge_channels original_channels browse_channels))"


text \<open>
  A guild rail for concrete runs: the home entry, a guild, the same guild once more, and
  an entry whose id is not numeric.
\<close>

definition sample_tree_items :: "tree_item list" where
  "sample_tree_items =
     [\<lparr>data_list_item_id = Some ''guildsnav___home'', descendant_texts = [Some ''Direct Messages''],
        item_text = Some ''Direct Messages''\<rparr>,
      \<lparr>data_list_item_id = Some ''guildsnav___123'', descendant_texts = [Some '' My Server ''],
        item_text = Some '' My Server ''\<rparr>,
      \<lparr>data_list_item_id = Some ''guildsnav___123'', descendant_texts = [Some ''Other Name''],
        item_text = Some ''Other Name''\<rparr>,
      \<lparr>data_list_item_id = Some ''guildsnav___12a'', descendant_texts = [Some ''Not a guild''],
        item_text = Some ''Not a guild''\<rparr>]"

text \<open>Links for concrete runs: a named channel, and one whose text is only white space.\<close>

definition sample_links :: "link list" where
  "sample_links =
     [\<lparr>href = ''/channels/1/22'', link_text = Some '' general ''\<rparr>,
      \<lparr>href = ''/channels/1/33'', link_text = Some ''  ''\<rparr>]"

text \<open>A rendered record with a given position, for concrete runs.\<close>

definition rendered :: "nat \<Rightarrow> message_data" where
  "rendered i = \<lparr>md_id = ''m'', md_author = ''a'', md_content = ''c'', md_timestamp = [],
                  md_index = i\<rparr>"


section \<open>Session teardown (close_client)\<close>

text \<open>
  The four resources a session acquires, in acquisition order: the driver
  (\<open>playwright\<close>), the browser, the context and the page. A field is \<open>None\<close> until the
  resource is acquired; an acquired resource is a truthy object.
\<close>

record 'r ClientState =
  cs_email :: string
  cs_password :: string
  cs_headless :: bool
  cs_extra_wait_ms :: int
  cs_playwright :: "'r option"
  cs_browser :: "'r option"
  cs_context :: "'r option"
  cs_page :: "'r option"
  cs_logged_in :: bool

text \<open>
  What an awaited call can raise: an \<open>Exception\<close> of one of the kinds above, or one of the
  exceptions that derive from \<open>BaseException\<close> without being an \<open>Exception\<close>: the
  cancellation of the running task (\<open>asyncio.CancelledError\<close>), \<open>KeyboardInterrupt\<close> and
  \<open>SystemExit\<close>. \<open>is_exception\<close> is \<open>isinstance(e, Exception)\<close>.
\<close>

datatype raised = Exception error | CancelledError | KeyboardInterrupt | SystemExit

fun is_exception :: "raised \<Rightarrow> bool" where
  "is_exception (Exception e) = True"
| "is_exception CancelledError = False"
| "is_exception KeyboardInterrupt = False"
| "is_exception SystemExit = False"

text \<open>
  \<open>await getattr(resource, action)()\<close> acts on the browser and the driver, the world \<open>'w\<close>
  outside the program: \<open>call r action w\<close> is what the call raises, if anything, and the world
  it leaves behind. The body of the \<open>try\<close> is \<open>close_step\<close>, which makes the call only on a
  resource the state holds; \<open>except Exception: pass\<close> is \<open>swallow\<close>.
\<close>

definition close_step ::
  "('r \<Rightarrow> string \<Rightarrow> 'w \<Rightarrow> raised option \<times> 'w) \<Rightarrow> 'r option \<Rightarrow> string \<Rightarrow> 'w \<Rightarrow>
     (raised + unit) \<times> 'w" where
  "close_step call resource action w =
     (case resource of
        None \<Rightarrow> (Inr (), w)
      | Some r \<Rightarrow>
          (case call r action w of
             (Some e, w') \<Rightarrow> (Inl e, w')
           | (None, w') \<Rightarrow> (Inr (), w')))"

definition swallow :: "raised + unit \<Rightarrow> raised + unit" where
  "swallow outcome =
     (case outcome of
        Inl e \<Rightarrow> if is_exception e then Inr () else Inl e
      | Inr u \<Rightarrow> Inr u)"

text \<open>
  The \<open>for\<close> loop over \<open>resources\<close>: an exception that \<open>swallow\<close> lets through leaves the
  loop, and the function, at once. The garbage collection after the loop makes no call.
\<close>

fun close_loop ::
  "('r \<Rightarrow> string \<Rightarrow> 'w \<Rightarrow> raised option \<times> 'w) \<Rightarrow> ('r option \<times> string) list \<Rightarrow> 'w \<Rightarrow>
     (raised + unit) \<times> 'w" where
  "close_loop call [] w = (Inr (), w)"
| "close_loop call ((resource, action) # rest) w =
     (case close_step call resource action w of
        (outcome, w') \<Rightarrow>
          (case swallow outcome of
             Inl e \<Rightarrow> (Inl e, w')
           | Inr u \<Rightarrow> close_loop call rest w'))"

definition close_client ::
  "('r \<Rightarrow> string \<Rightarrow> 'w \<Rightarrow> raised option \<times> 'w) \<Rightarrow> 'r ClientState \<Rightarrow> 'w \<Rightarrow> (raised + unit) \<times> 'w" where
  "close_client call state w =
     close_loop call
       [(cs_page state, ''close''), (cs_context state, ''close''),
        (cs_browser state, ''close''), (cs_playwright state, ''stop'')] w"

text \<open>
  The world a call on \<open>resource\<close> leaves behind when the state holds the resource, and the
  world as it was when it does not.
\<close>

definition world_after ::
  "('r \<Rightarrow> string \<Rightarrow> 'w \<Rightarrow> raised option \<times> 'w) \<Rightarrow> 'r option \<Rightarrow> string \<Rightarrow> 'w \<Rightarrow> 'w" where
  "world_after call resource action w =
     (case resource of None \<Rightarrow> w | Some r \<Rightarrow> snd (call r action w))"

text \<open>
  A world for concrete runs: the list of the calls made so far. Each call is recorded by
  the call itself, and raises what \<open>raises\<close> says.
\<close>

definition recording ::
  "('r \<Rightarrow> string \<Rightarrow> raised option) \<Rightarrow> 'r \<Rightarrow> string \<Rightarrow> ('r \<times> string) list \<Rightarrow>
     raised option \<times> ('r \<times> string) list" where
  "recording raises r action calls = (raises r action, calls @ [(r, action)])"

definition session :: "nat option \<Rightarrow> nat option \<Rightarrow> nat option \<Rightarrow> nat option \<Rightarrow> nat ClientState" where
  "session w b c p =
     \<lparr>cs_email = ''e'', cs_password = ''p'', cs_headless = True, cs_extra_wait_ms = 0,
      cs_playwright = w, cs_browser = b, cs_context = c, cs_page = p, cs_logged_in = False\<rparr>"


section \<open>Search page navigation (_navigate_to_search_page)\<close>

text \<open>\<open>str(n)\<close> for an integer.\<close>

function str_nat :: "nat \<Rightarrow> string" where
  "str_nat n = (if n < 10 then [''0123456789'' ! n] else str_nat (n div 10) @ [''0123456789'' ! (n mod 10)])"
  by pat_completeness auto
termination
  by (relation "measure id") auto

declare str_nat.simps [simp del]

definition str_int :: "int \<Rightarrow> string" where
  "str_int i = (if i < 0 then CHR ''-'' # str_nat (nat (- i)) else str_nat (nat i))"

text \<open>
  The page is a state \<open>'s\<close> seen through the driver: a selector query gives an element or
  nothing, an element is visible or not, and clicking, filling, pressing a key and waiting
  lead to a next state. The log lists the actions performed, each with the selector that
  found its element.
\<close>

record ('s, 'e) page_driver =
  query_selector :: "'s \<Rightarrow> string \<Rightarrow> 'e option"
  is_visible :: "'s \<Rightarrow> 'e \<Rightarrow> bool"
  click :: "'e \<Rightarrow> 's \<Rightarrow> 's"
  fill :: "'e \<Rightarrow> string \<Rightarrow> 's \<Rightarrow> 's"
  press :: "'e \<Rightarrow> string \<Rightarrow> 's \<Rightarrow> 's"
  wait_for_timeout :: "nat \<Rightarrow> 's \<Rightarrow> 's"

datatype action = Click string | Fill string string | Press string string | Wait nat

definition page_button_sel :: "int \<Rightarrow> string" where
  "page_button_sel target_page =
     ''button:has-text('' @ [CHR 0x22] @ ''Page '' @ str_int target_page @ [CHR 0x22] @ '')''"

definition ellipsis_sel :: string where
  "ellipsis_sel = ''button:has-text('' @ [CHR 0x22] @ ''...'' @ [CHR 0x22] @ '')''"

definition input_sel :: string where
  "input_sel = ''input[type='' @ [CHR 0x22] @ ''number'' @ [CHR 0x22] @ ''], input[type=''
               @ [CHR 0x22] @ ''text'' @ [CHR 0x22] @ '']''"

definition next_sel :: string where
  "next_sel = ''button:has-text('' @ [CHR 0x22] @ ''Next'' @ [CHR 0x22] @ '')''"

text \<open>\<open>x = await page.query_selector(sel)\<close> followed by \<open>x and await x.is_visible()\<close>.\<close>

definition visible_element :: "('s, 'e) page_driver \<Rightarrow> 's \<Rightarrow> string \<Rightarrow> 'e option" where
  "visible_element d s sel =
     (case query_selector d s sel of
        None \<Rightarrow> None
      | Some e \<Rightarrow> if is_visible d s e then Some e else None)"

text \<open>Method 3: the loop \<open>for _ in range(target_page - 1)\<close>, with the rounds still to run.\<close>

fun click_next ::
  "('s, 'e) page_driver \<Rightarrow> nat \<Rightarrow> 's \<Rightarrow> action list \<Rightarrow> bool \<times> 's \<times> action list" where
  "click_next d 0 s acts = (True, s, acts)"
| "click_next d (Suc n) s acts =
     (case visible_element d s next_sel of
        Some next_button \<Rightarrow>
          click_next d n (wait_for_timeout d 800 (click d next_button s))
            (acts @ [Click next_sel, Wait 800])
      | None \<Rightarrow> (False, s, acts))"

definition navigate_to_search_page ::
  "('s, 'e) page_driver \<Rightarrow> int \<Rightarrow> 's \<Rightarrow> bool \<times> 's \<times> action list" where
  "navigate_to_search_page d target_page s =
     (if target_page = 1 then (True, s, [])
      else
        case visible_element d s (page_button_sel target_page) of
          Some page_button \<Rightarrow>
            (True, wait_for_timeout d 1000 (click d page_button s),
             [Click (page_button_sel target_page), Wait 1000])
        | None \<Rightarrow>
            (case visible_element d s ellipsis_sel of
               Some ellipsis \<Rightarrow>
                 (let s1 = wait_for_timeout d 500 (click d ellipsis s);
                      acts1 = [Click ellipsis_sel, Wait 500]
                  in case query_selector d s1 input_sel of
                       Some page_input \<Rightarrow>
                         (True,
                          wait_for_timeout d 1000
                            (press d page_input ''Enter'' (fill d page_input (str_int target_page) s1)),
                          acts1 @ [Fill input_sel (str_int target_page), Press input_sel ''Enter'',
                                   Wait 1000])
                     | None \<Rightarrow> click_next d (nat (target_page - 1)) s1 acts1)
             | None \<Rightarrow> click_next d (nat (target_page - 1)) s []))"

text \<open>The page after one round of method 3, and after \<open>k\<close> rounds.\<close>

definition next_round :: "('s, 'e) page_driver \<Rightarrow> 's \<Rightarrow> 's" where
  "next_round d s =
     (case visible_element d s next_sel of
        Some next_button \<Rightarrow> wait_for_timeout d 800 (click d next_button s)
      | None \<Rightarrow> s)"

text \<open>
  A page for concrete runs: the state counts the clicks on Next so far, and Next is the
  only control, visible while fewer than \<open>pages\<close> clicks were made.
\<close>

definition counting_page :: "nat \<Rightarrow> (nat, string) page_driver" where
  "counting_page pages =
     \<lparr>query_selector = (\<lambda>s sel. if sel = next_sel \<and> s < pages then Some sel else None),
      is_visible = (\<lambda>s e. True),
      click = (\<lambda>e s. Suc s),
      fill = (\<lambda>e t s. s),
      press = (\<lambda>e k s. s),
      wait_for_timeout = (\<lambda>ms s. s)\<rparr>"


section \<open>Message history (get_channel_messages)\<close>

text \<open>
  A driver call outside a \<open>try\<close> block that raises ends the operation with that exception
  and no result; the scrapers below are modelled on runs where these calls complete.

  The page is read through two parameters. \<open>snapshots attempt\<close> is the list of elements
  \<open>query_selector_all\<close> returns in the given attempt. \<open>extract element channel_id collected\<close>
  is what \<open>_extract_message_data\<close> makes of an element: it catches every exception itself,
  so its result is a message or \<open>None\<close>.
\<close>

text \<open>\<open>if x\<close> for \<open>x: str | None\<close>: neither \<open>None\<close> nor the empty string.\<close>

fun truthy :: "string option \<Rightarrow> bool" where
  "truthy None = False"
| "truthy (Some s) = (s \<noteq> [])"

text \<open>
  The walk \<open>for element in reversed(elements)\<close>, given the elements in walking order, with
  the list \<open>messages\<close> and the set \<open>seen_ids\<close>.
\<close>

fun walk_elements ::
  "('e \<Rightarrow> string \<Rightarrow> nat \<Rightarrow> DiscordMessage option) \<Rightarrow> string \<Rightarrow> int \<Rightarrow> string option \<Rightarrow>
     string option \<Rightarrow> 'e list \<Rightarrow> DiscordMessage list \<Rightarrow> string set \<Rightarrow>
     DiscordMessage list \<times> string set" where
  "walk_elements extract chan limit before after [] messages seen_ids = (messages, seen_ids)"
| "walk_elements extract chan limit before after (element # rest) messages seen_ids =
     (if int (length messages) \<ge> limit then (messages, seen_ids)
      else
        case extract element chan (card seen_ids) of
          None \<Rightarrow> walk_elements extract chan limit before after rest messages seen_ids
        | Some message \<Rightarrow>
            if m_id message \<notin> seen_ids
            then (if truthy before \<and> m_id message \<ge> the before
                  then walk_elements extract chan limit before after rest messages seen_ids
                  else if truthy after \<and> m_id message \<le> the after
                  then walk_elements extract chan limit before after rest messages seen_ids
                  else walk_elements extract chan limit before after rest
                         (messages @ [message]) (insert (m_id message) seen_ids))
            else walk_elements extract chan limit before after rest messages seen_ids)"

text \<open>The loop \<open>for attempt in range(10)\<close>, from a given attempt on.\<close>

function read_attempts ::
  "(nat \<Rightarrow> 'e list) \<Rightarrow> ('e \<Rightarrow> string \<Rightarrow> nat \<Rightarrow> DiscordMessage option) \<Rightarrow> string \<Rightarrow> int \<Rightarrow>
     string option \<Rightarrow> string option \<Rightarrow> nat \<Rightarrow> DiscordMessage list \<Rightarrow> string set \<Rightarrow>
     DiscordMessage list \<times> string set" where
  "read_attempts snapshots extract chan limit before after attempt messages seen_ids =
     (if attempt < 10
      then (let elements = snapshots attempt
            in if elements = []
               then read_attempts snapshots extract chan limit before after (Suc attempt)
                      messages seen_ids
               else
                 case walk_elements extract chan limit before after (rev elements)
                        messages seen_ids of
                   (messages', seen_ids') \<Rightarrow>
                     if int (length messages') \<ge> limit then (messages', seen_ids')
                     else read_attempts snapshots extract chan limit before after (Suc attempt)
                            messages' seen_ids')
      else (messages, seen_ids))"
  by pat_completeness auto
termination
  by (relation "measure (\<lambda>(snapshots, extract, chan, limit, before, after, attempt, messages,
                            seen_ids). 10 - attempt)") auto

declare read_attempts.simps [simp del]

text \<open>
  \<open>sorted(messages, key=lambda m: m.timestamp, reverse=True)\<close>: a stable sort, latest
  first. Ordering an aware timestamp against a naive one raises TypeError, which any sort
  of a list holding both kinds runs into.
\<close>

definition sorted_by_timestamp :: "DiscordMessage list \<Rightarrow> error + DiscordMessage list" where
  "sorted_by_timestamp messages =
     (if (\<exists>m \<in> set messages. is_aware (m_timestamp m))
         \<and> (\<exists>m \<in> set messages. \<not> is_aware (m_timestamp m))
      then Inl TypeError
      else Inr (sort_key (\<lambda>m. - dt_key (m_timestamp m)) messages))"

definition get_channel_messages ::
  "(nat \<Rightarrow> 'e list) \<Rightarrow> ('e \<Rightarrow> string \<Rightarrow> nat \<Rightarrow> DiscordMessage option) \<Rightarrow> string \<Rightarrow> int \<Rightarrow>
     string option \<Rightarrow> string option \<Rightarrow> error + DiscordMessage list" where
  "get_channel_messages snapshots extract chan limit before after =
     (case sorted_by_timestamp
             (fst (read_attempts snapshots extract chan limit before after 0 [] {})) of
        Inl e \<Rightarrow> Inl e
      | Inr sorted_messages \<Rightarrow> Inr (py_slice sorted_messages 0 limit))"

text \<open>
  \<open>later_or_equal a b\<close>: timestamp \<open>a\<close> can be ordered against \<open>b\<close> and is not earlier.
\<close>

definition later_or_equal :: "datetime \<Rightarrow> datetime \<Rightarrow> bool" where
  "later_or_equal a b = (is_aware a = is_aware b \<and> dt_key b \<le> dt_key a)"

text \<open>The bounds a returned id has to respect.\<close>

definition within_bounds :: "string option \<Rightarrow> string option \<Rightarrow> DiscordMessage \<Rightarrow> bool" where
  "within_bounds before after m =
     ((truthy before \<longrightarrow> m_id m < the before) \<and> (truthy after \<longrightarrow> the after < m_id m))"

text \<open>Elements for concrete runs: an element is the message it renders, or nothing.\<close>

definition msg :: "string \<Rightarrow> int \<Rightarrow> DiscordMessage" where
  "msg i t = \<lparr>m_id = i, m_content = ''text'', m_author_name = ''ann'', m_author_id = ''unknown'',
              m_channel_id = ''7'', m_timestamp = Aware t, m_attachments = []\<rparr>"

definition sample_snapshots :: "nat \<Rightarrow> DiscordMessage option list" where
  "sample_snapshots attempt =
     (if attempt = 0 then [Some (msg ''100'' 1), Some (msg ''200'' 2), None, Some (msg ''300'' 3)]
      else if attempt = 1 then [Some (msg ''050'' 0), Some (msg ''100'' 1)]
      else [])"


section \<open>Search results (search_messages)\<close>

text \<open>
  One record of \<open>results_data\<close>, with the five fields the in-page script pushes. The script
  pushes a record only for non-empty content and cuts the content at 500 characters.
\<close>

record search_result =
  sr_author :: string
  sr_content :: string
  sr_timestamp :: string
  sr_channel :: string
  sr_index :: nat

text \<open>The f-string \<open>f"{result['author']}:{result['content'][:50] if result['content'] else ''}"\<close>.\<close>

definition content_key :: "search_result \<Rightarrow> string" where
  "content_key result =
     sr_author result @ '':'' @
       (if sr_content result \<noteq> [] then py_slice (sr_content result) 0 50 else [])"

text \<open>
  The message appended for a record when \<open>n\<close> messages are already held. The script sets
  no \<open>fullTimestamp\<close> field, so the timestamp is the clock reading taken for this record;
  \<open>clock n\<close> is that reading, in UTC.
\<close>

definition result_message ::
  "(nat \<Rightarrow> int) \<Rightarrow> string list option \<Rightarrow> nat \<Rightarrow> search_result \<Rightarrow> DiscordMessage" where
  "result_message clock in_channels n result =
     \<lparr>m_id = ''search-'' @ str_int (int n),
      m_content = sr_content result,
      m_author_name = sr_author result,
      m_author_id = ''unknown'',
      m_channel_id =
        (if sr_channel result \<noteq> [] then sr_channel result
         else case in_channels of Some (c # cs) \<Rightarrow> c | _ \<Rightarrow> []),
      m_timestamp = Aware (clock n),
      m_attachments = []\<rparr>"

text \<open>The loop \<open>for result in results_data\<close>, with the list \<open>messages\<close> and the set \<open>seen_content\<close>.\<close>

fun scan_results ::
  "(nat \<Rightarrow> int) \<Rightarrow> string list option \<Rightarrow> int \<Rightarrow> search_result list \<Rightarrow> DiscordMessage list \<Rightarrow>
     string set \<Rightarrow> DiscordMessage list \<times> string set" where
  "scan_results clock in_channels limit [] messages seen_content = (messages, seen_content)"
| "scan_results clock in_channels limit (result # rest) messages seen_content =
     (if int (length messages) \<ge> limit then (messages, seen_content)
      else if content_key result \<in> seen_content
      then scan_results clock in_channels limit rest messages seen_content
      else scan_results clock in_channels limit rest
             (messages @ [result_message clock in_channels (length messages) result])
             (insert (content_key result) seen_content))"

text \<open>
  The loop \<open>while len(messages) < limit and scroll_attempts < max_scrolls\<close>, with
  \<open>max_scrolls = 5\<close>; \<open>results_data k\<close> is what the script returns after \<open>k\<close> scrolls.
\<close>

function collect_results ::
  "(nat \<Rightarrow> int) \<Rightarrow> string list option \<Rightarrow> int \<Rightarrow> (nat \<Rightarrow> search_result list) \<Rightarrow> nat \<Rightarrow>
     DiscordMessage list \<Rightarrow> string set \<Rightarrow> DiscordMessage list \<times> string set" where
  "collect_results clock in_channels limit results_data scroll_attempts messages seen_content =
     (if int (length messages) < limit \<and> scroll_attempts < 5
      then (case scan_results clock in_channels limit (results_data scroll_attempts)
                   messages seen_content of
              (messages', seen_content') \<Rightarrow>
                if int (length messages') \<ge> limit then (messages', seen_content')
                else collect_results clock in_channels limit results_data (Suc scroll_attempts)
                       messages' seen_content')
      else (messages, seen_content))"
  by pat_completeness auto
termination
  by (relation "measure (\<lambda>(clock, in_channels, limit, results_data, scroll_attempts, messages,
                            seen_content). 5 - scroll_attempts)") auto

declare collect_results.simps [simp del]

text \<open>The returned list, \<open>messages[:limit]\<close>.\<close>

definition search_messages ::
  "(nat \<Rightarrow> int) \<Rightarrow> string list option \<Rightarrow> int \<Rightarrow> (nat \<Rightarrow> search_result list) \<Rightarrow>
     DiscordMessage list" where
  "search_messages clock in_channels limit results_data =
     py_slice (fst (collect_results clock in_channels limit results_data 0 [] {})) 0 limit"

text \<open>The composite key of a returned message: its author and the first 50 characters of its content.\<close>

definition message_key :: "DiscordMessage \<Rightarrow> string \<times> string" where
  "message_key m = (m_author_name m, take 50 (m_content m))"

text \<open>A scraped record for concrete runs.\<close>

definition hit :: "string \<Rightarrow> string \<Rightarrow> string \<Rightarrow> search_result" where
  "hit a c ch = \<lparr>sr_author = a, sr_content = c, sr_timestamp = [], sr_channel = ch, sr_index = 0\<rparr>"


section \<open>Message chunking (send_message)\<close>

text \<open>\<open>s.split(sep)\<close> for a one-character separator: the pieces between the separators, at least one.\<close>

fun split_on :: "char \<Rightarrow> string \<Rightarrow> string list" where
  "split_on sep [] = [[]]"
| "split_on sep (c # cs) =
     (if c = sep then [] # split_on sep cs
      else case split_on sep cs of
             [] \<Rightarrow> [[c]]
           | piece # pieces \<Rightarrow> (c # piece) # pieces)"

text \<open>
  The block that puts a finished piece (a line, or a run of words) into \<open>current_chunk\<close> or
  starts a new chunk with it; the source has it three times, with the same text.
\<close>

definition add_to_chunk :: "string list \<times> string \<Rightarrow> string \<Rightarrow> string list \<times> string" where
  "add_to_chunk st piece =
     (case st of (chunks, current_chunk) \<Rightarrow>
        if length (current_chunk @ [CHR 0x0A] @ piece) \<le> 2000
        then (chunks, if current_chunk \<noteq> [] then current_chunk @ [CHR 0x0A] @ piece else piece)
        else (chunks @ [current_chunk], piece))"

text \<open>The loop \<open>for word in words\<close> over the words of an over-long line.\<close>

fun split_words ::
  "string list \<Rightarrow> string list \<Rightarrow> string \<Rightarrow> string \<Rightarrow> string list \<times> string \<times> string" where
  "split_words [] chunks current_chunk current_line = (chunks, current_chunk, current_line)"
| "split_words (word # rest) chunks current_chunk current_line =
     (if length (current_line @ '' '' @ word) \<le> 2000
      then split_words rest chunks current_chunk
             (if current_line \<noteq> [] then current_line @ '' '' @ word else word)
      else if current_line \<noteq> []
      then (case add_to_chunk (chunks, current_chunk) current_line of
              (chunks', current_chunk') \<Rightarrow> split_words rest chunks' current_chunk' word)
      else split_words rest chunks current_chunk (py_slice word 0 2000))"

text \<open>The loop \<open>for line in lines\<close>.\<close>

fun split_lines :: "string list \<Rightarrow> string list \<Rightarrow> string \<Rightarrow> string list \<times> string" where
  "split_lines [] chunks current_chunk = (chunks, current_chunk)"
| "split_lines (line # rest) chunks current_chunk =
     (if length line > 2000
      then (case split_words (split_on (CHR '' '') line) chunks current_chunk [] of
              (chunks', current_chunk', current_line) \<Rightarrow>
                if current_line \<noteq> []
                then (case add_to_chunk (chunks', current_chunk') current_line of
                        (chunks'', current_chunk'') \<Rightarrow> split_lines rest chunks'' current_chunk'')
                else split_lines rest chunks' current_chunk')
      else (case add_to_chunk (chunks, current_chunk) line of
              (chunks', current_chunk') \<Rightarrow> split_lines rest chunks' current_chunk'))"

text \<open>The list \<open>chunks\<close> that \<open>send_message\<close> goes on to send, one message per chunk.\<close>

definition message_chunks :: "string \<Rightarrow> string list" where
  "message_chunks content =
     (if length content \<le> 2000 then [content]
      else case split_lines (split_on (CHR 0x0A) content) [] [] of
             (chunks, current_chunk) \<Rightarrow>
               if current_chunk \<noteq> [] then chunks @ [current_chunk] else chunks)"




text \<open>Content for concrete runs: three words of 2000, 2000 and 498 characters.\<close>

definition sample_content :: string where
  "sample_content =
     replicate 2000 CHR ''a'' @ '' '' @ replicate 2000 CHR ''b'' @ '' '' @ replicate 498 CHR ''c''"


section \<open>Properties of the context window\<close>

lemma py_slice_nonneg:
  assumes "0 \<le> i" "i \<le> j" "j \<le> int (length xs)"
  shows "py_slice xs i j = take (nat (j - i)) (drop (nat i) xs)"
  using assms by (simp add: py_slice_def slice_bound_def Let_def min_def)

lemma py_get_in_range:
  assumes "i < length xs"
  shows "py_get xs (int i) = Inr (xs ! i)"
  using assms by (simp add: py_get_def)

lemma context_slices_in_range:
  assumes bc: "0 \<le> before_count" and ac: "0 \<le> after_count"
    and idx: "target_idx < length messages_data"
  shows "context_slices mk messages_data target_idx before_count after_count =
           Inr (map mk (take (min (nat before_count) target_idx)
                          (drop (target_idx - nat before_count) messages_data)),
                mk (messages_data ! target_idx),
                map mk (take (min (nat after_count) (length messages_data - 1 - target_idx))
                          (drop (Suc target_idx) messages_data)))"
proof -
  let ?bs = "max 0 (int target_idx - before_count)"
  let ?ae = "min (int (length messages_data)) (int target_idx + after_count + 1)"
  have b: "py_slice messages_data ?bs (int target_idx) =
             take (min (nat before_count) target_idx)
               (drop (target_idx - nat before_count) messages_data)"
  proof -
    have "py_slice messages_data ?bs (int target_idx) =
            take (nat (int target_idx - ?bs)) (drop (nat ?bs) messages_data)"
      using bc idx by (intro py_slice_nonneg) auto
    moreover have "nat (int target_idx - ?bs) = min (nat before_count) target_idx"
      using bc by (auto simp: max_def min_def)
    moreover have "nat ?bs = target_idx - nat before_count"
      using bc by (auto simp: max_def)
    ultimately show ?thesis by simp
  qed
  have a: "py_slice messages_data (int target_idx + 1) ?ae =
             take (min (nat after_count) (length messages_data - 1 - target_idx))
               (drop (Suc target_idx) messages_data)"
  proof -
    have "py_slice messages_data (int target_idx + 1) ?ae =
            take (nat (?ae - (int target_idx + 1))) (drop (nat (int target_idx + 1)) messages_data)"
      using ac idx by (intro py_slice_nonneg) auto
    moreover have "nat (?ae - (int target_idx + 1)) =
                     min (nat after_count) (length messages_data - 1 - target_idx)"
      using ac idx by (auto simp: min_def)
    moreover have "nat (int target_idx + 1) = Suc target_idx" by simp
    ultimately show ?thesis by simp
  qed
  show ?thesis
    unfolding context_slices_def Let_def b a py_get_in_range [OF idx] by simp
qed

lemma length_before_slice:
  "idx < length xs \<Longrightarrow> length (take (min b idx) (drop (idx - b) xs)) = min b idx"
  by (auto simp: min_def)

lemma length_after_slice:
  "idx < length xs \<Longrightarrow>
     length (take (min a (length xs - Suc idx)) (drop (Suc idx) xs)) = min a (length xs - Suc idx)"
  by (simp add: min_def)

text \<open>
  C7. With non-negative counts and a target index inside the rendered list the slicing
  returns (it does not raise): the slice before the target has
  \<open>min before_count target_idx\<close> records, the one after it
  \<open>min after_count (len - 1 - target_idx)\<close>, and both are the records adjacent to the
  target, in order. For a list of 8 records, target index 4 and both counts 5 this is 4
  records before and 3 after; index 4 is also what the lookup chooses by default
  (\<open>8 // 2\<close>) when no record carries the id of the URL.
\<close>

theorem context_window_clamped:
  "(0 \<le> before_count \<and> 0 \<le> after_count \<and> target_idx < length messages_data \<longrightarrow>
      (\<exists>b t a. context_slices mk messages_data target_idx before_count after_count = Inr (b, t, a)
         \<and> length b = min (nat before_count) target_idx
         \<and> length a = min (nat after_count) (length messages_data - 1 - target_idx)
         \<and> t = mk (messages_data ! target_idx)
         \<and> b = map mk (take (min (nat before_count) target_idx)
                         (drop (target_idx - nat before_count) messages_data))
         \<and> a = map mk (take (min (nat after_count) (length messages_data - 1 - target_idx))
                         (drop (Suc target_idx) messages_data))))
   \<and> (length messages_data = 8 \<longrightarrow>
        (\<exists>b t a. context_slices mk messages_data 4 5 5 = Inr (b, t, a)
           \<and> length b = 4 \<and> length a = 3)
        \<and> find_target_idx [] messages_data = 4)"
proof (intro conjI impI)
  assume h: "0 \<le> before_count \<and> 0 \<le> after_count \<and> target_idx < length messages_data"
  then show "\<exists>b t a. context_slices mk messages_data target_idx before_count after_count = Inr (b, t, a)
         \<and> length b = min (nat before_count) target_idx
         \<and> length a = min (nat after_count) (length messages_data - 1 - target_idx)
         \<and> t = mk (messages_data ! target_idx)
         \<and> b = map mk (take (min (nat before_count) target_idx)
                         (drop (target_idx - nat before_count) messages_data))
         \<and> a = map mk (take (min (nat after_count) (length messages_data - 1 - target_idx))
                         (drop (Suc target_idx) messages_data))"
    by (simp add: context_slices_in_range length_before_slice length_after_slice
          del: length_take length_drop)
next
  assume len: "length messages_data = 8"
  have "context_slices mk messages_data 4 5 5 =
          Inr (map mk (take (min (nat 5) 4) (drop (4 - nat 5) messages_data)),
               mk (messages_data ! 4),
               map mk (take (min (nat 5) (length messages_data - 1 - 4))
                         (drop (Suc 4) messages_data)))"
    using len by (intro context_slices_in_range) simp_all
  then show "\<exists>b t a. context_slices mk messages_data 4 5 5 = Inr (b, t, a)
           \<and> length b = 4 \<and> length a = 3"
    using len by simp
next
  assume len: "length messages_data = 8"
  have "find_by_id [] xs i = None" for xs :: "message_data list" and i
    by (induction xs arbitrary: i) simp_all
  then show "find_target_idx [] messages_data = 4"
    using len by (simp add: find_target_idx_def)
qed

theorem context_window_clamped_witness:
  "(0::int) \<le> 5 \<and> (4::nat) < length (map rendered [0, 1, 2, 3, 4, 5, 6, 7])
   \<and> length (map rendered [0, 1, 2, 3, 4, 5, 6, 7]) = 8
   \<and> context_slices md_index (map rendered [0, 1, 2, 3, 4, 5, 6, 7]) 4 5 5
       = Inr ([0, 1, 2, 3], 4, [5, 6, 7])
   \<and> find_target_idx [] (map rendered [0, 1, 2, 3, 4, 5, 6, 7]) = 4"
  using context_window_clamped
    [where mk = md_index and messages_data = "map rendered [0, 1, 2, 3, 4, 5, 6, 7]"
       and target_idx = 4 and before_count = 5 and after_count = 5]
  by (simp add: rendered_def)

section \<open>Properties of the channel merge\<close>

lemma add_original_snd: "snd (add_original xs m f) = f @ xs"
  by (induction xs arbitrary: m f) simp_all

lemma add_original_fst:
  "fst (add_original xs m f) k = None \<longleftrightarrow> m k = None \<and> k \<notin> cd_id ` set xs"
  by (induction xs arbitrary: m f) auto

lemma add_browse_eq:
  "add_browse bs m f = f @ filter (\<lambda>ch. m (cd_id ch) = None) bs"
  by (induction bs arbitrary: f) simp_all

lemma merge_channels_eq:
  "merge_channels d b = d @ filter (\<lambda>ch. cd_id ch \<notin> cd_id ` set d) b"
proof -
  obtain m f where mf: "add_original d Map.empty [] = (m, f)"
    by (cases "add_original d Map.empty []")
  have f: "f = d" using add_original_snd [of d Map.empty "[]"] mf by simp
  have m: "\<And>k. m k = None \<longleftrightarrow> k \<notin> cd_id ` set d"
    using add_original_fst [of d Map.empty "[]"] mf by simp
  show ?thesis by (simp add: merge_channels_def mf f add_browse_eq m)
qed

lemma merge_again_browse:
  "merge_channels (merge_channels d b) b = merge_channels d b"
proof -
  have "filter (\<lambda>ch. cd_id ch \<notin> cd_id ` set (merge_channels d b)) b = []"
    by (auto simp: merge_channels_eq filter_empty_conv)
  then show ?thesis by (simp add: merge_channels_eq [of "merge_channels d b" b])
qed

lemma merge_again_direct:
  "merge_channels d (merge_channels d b) = merge_channels d b"
  by (simp add: merge_channels_eq filter_empty_conv)

text \<open>
  C4. The merged list is the direct entries in their order followed by exactly the browse
  entries whose id no direct entry has, in their order; an entry of the result whose id
  occurs in the direct set is a direct entry; and merging the result once more with the
  same browse set, or the same direct set with the result, gives the same list again.
\<close>

theorem merge_channels_idempotent_ordered:
  "merge_channels direct browse
     = direct @ filter (\<lambda>ch. cd_id ch \<notin> cd_id ` set direct) browse
   \<and> merge_channels (merge_channels direct browse) browse = merge_channels direct browse
   \<and> merge_channels direct (merge_channels direct browse) = merge_channels direct browse
   \<and> (\<forall>i \<in> cd_id ` set direct.
        filter (\<lambda>ch. cd_id ch = i) (merge_channels direct browse)
          = filter (\<lambda>ch. cd_id ch = i) direct)"
proof (intro conjI ballI)
  show "merge_channels direct browse
          = direct @ filter (\<lambda>ch. cd_id ch \<notin> cd_id ` set direct) browse"
    by (rule merge_channels_eq)
  show "merge_channels (merge_channels direct browse) browse = merge_channels direct browse"
    by (rule merge_again_browse)
  show "merge_channels direct (merge_channels direct browse) = merge_channels direct browse"
    by (rule merge_again_direct)
next
  fix i assume "i \<in> cd_id ` set direct"
  then have "filter (\<lambda>ch. cd_id ch = i) (filter (\<lambda>ch. cd_id ch \<notin> cd_id ` set direct) browse) = []"
    by (auto simp: filter_empty_conv)
  then show "filter (\<lambda>ch. cd_id ch = i) (merge_channels direct browse)
               = filter (\<lambda>ch. cd_id ch = i) direct"
    by (simp add: merge_channels_eq)
qed

theorem merge_channels_idempotent_ordered_witness:
  "merge_channels
     [\<lparr>cd_id = ''1'', cd_name = ''a'', cd_href = ''x''\<rparr>, \<lparr>cd_id = ''2'', cd_name = ''b'', cd_href = ''y''\<rparr>]
     [\<lparr>cd_id = ''3'', cd_name = ''c'', cd_href = ''z''\<rparr>, \<lparr>cd_id = ''1'', cd_name = ''other'', cd_href = ''w''\<rparr>]
   = [\<lparr>cd_id = ''1'', cd_name = ''a'', cd_href = ''x''\<rparr>, \<lparr>cd_id = ''2'', cd_name = ''b'', cd_href = ''y''\<rparr>,
      \<lparr>cd_id = ''3'', cd_name = ''c'', cd_href = ''z''\<rparr>]
   \<and> ''1'' \<in> cd_id ` set [\<lparr>cd_id = ''1'', cd_name = ''a'', cd_href = ''x''\<rparr>,
                          \<lparr>cd_id = ''2'', cd_name = ''b'', cd_href = ''y''\<rparr>]
   \<and> filter (\<lambda>ch. cd_id ch = ''1'')
       (merge_channels
          [\<lparr>cd_id = ''1'', cd_name = ''a'', cd_href = ''x''\<rparr>, \<lparr>cd_id = ''2'', cd_name = ''b'', cd_href = ''y''\<rparr>]
          [\<lparr>cd_id = ''3'', cd_name = ''c'', cd_href = ''z''\<rparr>, \<lparr>cd_id = ''1'', cd_name = ''other'', cd_href = ''w''\<rparr>])
     = [\<lparr>cd_id = ''1'', cd_name = ''a'', cd_href = ''x''\<rparr>]"
  using merge_channels_idempotent_ordered
    [of "[\<lparr>cd_id = ''1'', cd_name = ''a'', cd_href = ''x''\<rparr>, \<lparr>cd_id = ''2'', cd_name = ''b'', cd_href = ''y''\<rparr>]"
        "[\<lparr>cd_id = ''3'', cd_name = ''c'', cd_href = ''z''\<rparr>, \<lparr>cd_id = ''1'', cd_name = ''other'', cd_href = ''w''\<rparr>]"]
  by simp



section \<open>Properties of the guild extraction\<close>

lemma extract_guilds_distinct:
  "distinct (map gd_id acc) \<Longrightarrow> distinct (map gd_id (extract_guilds items acc))"
  by (induction items arbitrary: acc) (auto simp: Let_def split: option.splits)
lemma extract_guilds_digits:
  "set (extract_guilds items acc) \<subseteq> set acc \<union> {g. all_digits (gd_id g)}"
proof (induction items arbitrary: acc)
  case Nil
  then show ?case by simp
next
  case (Cons item rest)
  show ?case
    using Cons.IH [of acc]
      Cons.IH [of "acc @ [\<lparr>gd_id = replace_first ''guildsnav___'' [] (the (data_list_item_id item)),
                            gd_name = the (guild_name item)\<rparr>]"]
    by (auto simp: Let_def split: option.splits)
qed

lemma all_digits_iff: "all_digits s \<longleftrightarrow> s \<noteq> [] \<and> set s \<subseteq> set ''0123456789''"
proof -
  have "is_digit = (\<lambda>c. c \<in> set ''0123456789'')"
    by (rule ext) (rule is_digit_def)
  then show ?thesis
    by (simp only: all_digits_def list_all_iff subset_eq)
qed

lemma home_not_digits: "\<not> all_digits ''home''"
  by (simp add: all_digits_def is_digit_def)

text \<open>
  C5. In the list \<open>get_guilds\<close> returns no two records have the same id, no record has
  the id \<open>home\<close> of the home entry, and every id is a non-empty string of digits.
\<close>

theorem get_guilds_ids:
  "distinct (map g_id (get_guilds tree_items))
   \<and> (\<forall>g \<in> set (get_guilds tree_items).
        g_id g \<noteq> ''home'' \<and> g_id g \<noteq> [] \<and> set (g_id g) \<subseteq> set ''0123456789'')"
proof
  have "map g_id (get_guilds tree_items) = map gd_id (extract_guilds tree_items [])"
    by (simp add: get_guilds_def comp_def)
  then show "distinct (map g_id (get_guilds tree_items))"
    using extract_guilds_distinct [of "[]" tree_items] by simp
next
  show "\<forall>g \<in> set (get_guilds tree_items).
          g_id g \<noteq> ''home'' \<and> g_id g \<noteq> [] \<and> set (g_id g) \<subseteq> set ''0123456789''"
  proof
    fix g assume "g \<in> set (get_guilds tree_items)"
    then obtain d where d: "d \<in> set (extract_guilds tree_items [])" and g: "g_id g = gd_id d"
      unfolding get_guilds_def by (auto simp del: set_simps)
    from d have dig: "all_digits (gd_id d)"
      using extract_guilds_digits [of tree_items "[]"] by auto
    then have ne: "g_id g \<noteq> []" and sub: "set (g_id g) \<subseteq> set ''0123456789''"
      unfolding g all_digits_iff by (rule conjunct1, rule conjunct2)
    have "g_id g \<noteq> ''home''"
      using dig home_not_digits unfolding g by (rule_tac notI) (simp only:)
    with ne sub show "g_id g \<noteq> ''home'' \<and> g_id g \<noteq> [] \<and> set (g_id g) \<subseteq> set ''0123456789''"
      by (intro conjI)
  qed
qed

lemma get_guilds_sample:
  "get_guilds sample_tree_items = [\<lparr>g_id = ''123'', g_name = ''My Server'', g_icon = None\<rparr>]"
  by (simp add: get_guilds_def sample_tree_items_def guild_name_def plausible_name_def
      js_trim_def js_space_def all_digits_def is_digit_def starts_with_def strip_mentions_def
      Let_def)

theorem get_guilds_ids_witness:
  "get_guilds sample_tree_items = [\<lparr>g_id = ''123'', g_name = ''My Server'', g_icon = None\<rparr>]
   \<and> distinct (map g_id (get_guilds sample_tree_items))
   \<and> list_all (\<lambda>g. g_id g \<noteq> ''home'' \<and> g_id g \<noteq> [] \<and> set (g_id g) \<subseteq> set ''0123456789'')
        (get_guilds sample_tree_items)"
  using get_guilds_ids [of sample_tree_items] get_guilds_sample by simp


section \<open>Properties of the channel extraction\<close>

lemma extract_channels_names:
  "set (extract_channels m ls seen acc) \<subseteq> set acc \<union> {ch. cd_name ch \<noteq> []}"
proof (induction ls arbitrary: seen acc)
  case Nil
  then show ?case by simp
next
  case (Cons l ls)
  show ?case
  proof (cases "m (href l)")
    case None
    then show ?thesis using Cons.IH [of seen acc] by simp
  next
    case (Some channelId)
    show ?thesis
    proof (cases "channelId \<in> seen")
      case True
      then show ?thesis using Some Cons.IH [of seen acc] by simp
    next
      case False
      let ?new = "\<lparr>cd_id = channelId,
                    cd_name = (if clean_link_text (link_text l) \<noteq> [] then clean_link_text (link_text l)
                               else ''channel-'' @ channelId),
                    cd_href = href l\<rparr>"
      have "cd_name ?new \<noteq> []" by simp
      then show ?thesis
        using Some False Cons.IH [of "insert channelId seen" "acc @ [?new]"]
        by (auto simp: Let_def)
    qed
  qed
qed

lemma merge_channels_subset:
  "set (merge_channels d b) \<subseteq> set d \<union> set b"
  by (auto simp: merge_channels_eq)

text \<open>
  C10. Every channel \<open>get_guild_channels\<close> returns has a non-empty name, whatever the
  pattern match yields; and a single link whose cleaned text is empty is extracted with the
  name \<open>channel-\<close> followed by its channel id.
\<close>

theorem channel_names_nonempty:
  "(\<forall>c \<in> set (get_guild_channels channel_regex guild_id page_links browse_links). c_name c \<noteq> [])
   \<and> (href_match (href l) = Some channelId \<and> clean_link_text (link_text l) = [] \<longrightarrow>
        extract_channels href_match [l] {} []
          = [\<lparr>cd_id = channelId, cd_name = ''channel-'' @ channelId, cd_href = href l\<rparr>])"
proof (intro conjI ballI impI)
  fix c assume "c \<in> set (get_guild_channels channel_regex guild_id page_links browse_links)"
  then obtain ch where c: "c_name c = cd_name ch"
    and ch: "ch \<in> set (extract_channels (channel_regex guild_id) page_links {} [])
             \<or> (\<exists>ls. ch \<in> set (extract_channels (channel_regex guild_id) ls {} []))"
    using merge_channels_subset
    by (fastforce simp: get_guild_channels_def Let_def split: option.splits)
  have "cd_name ch \<noteq> []"
    using ch extract_channels_names [of "channel_regex guild_id" _ "{}" "[]"] by auto
  with c show "c_name c \<noteq> []" by simp
next
  assume "href_match (href l) = Some channelId \<and> clean_link_text (link_text l) = []"
  then show "extract_channels href_match [l] {} []
               = [\<lparr>cd_id = channelId, cd_name = ''channel-'' @ channelId, cd_href = href l\<rparr>]"
    by simp
qed

lemma get_guild_channels_sample:
  "get_guild_channels match_channel_href ''1'' sample_links None
     = [\<lparr>c_id = ''22'', c_name = ''general'', c_type = 0, c_guild_id = Some ''1''\<rparr>,
        \<lparr>c_id = ''33'', c_name = ''channel-33'', c_type = 0, c_guild_id = Some ''1''\<rparr>]"
  by (simp add: get_guild_channels_def sample_links_def match_channel_href_def starts_with_def
      is_digit_def clean_link_text_def js_trim_def js_space_def name_char_def merge_channels_def
      Let_def)

theorem channel_names_nonempty_witness:
  "get_guild_channels match_channel_href ''1'' sample_links None
     = [\<lparr>c_id = ''22'', c_name = ''general'', c_type = 0, c_guild_id = Some ''1''\<rparr>,
        \<lparr>c_id = ''33'', c_name = ''channel-33'', c_type = 0, c_guild_id = Some ''1''\<rparr>]
   \<and> list_all (\<lambda>c. c_name c \<noteq> [])
        (get_guild_channels match_channel_href ''1'' sample_links None)
   \<and> match_channel_href ''1'' (href (sample_links ! 1)) = Some ''33''
   \<and> clean_link_text (link_text (sample_links ! 1)) = []
   \<and> extract_channels (match_channel_href ''1'') [sample_links ! 1] {} []
       = [\<lparr>cd_id = ''33'', cd_name = ''channel-33'', cd_href = ''/channels/1/33''\<rparr>]"
proof -
  have m: "match_channel_href ''1'' (href (sample_links ! 1)) = Some ''33''"
    by (simp add: sample_links_def match_channel_href_def starts_with_def is_digit_def)
  have t: "clean_link_text (link_text (sample_links ! 1)) = []"
    by (simp add: sample_links_def clean_link_text_def js_trim_def js_space_def)
  have h: "href (sample_links ! 1) = ''/channels/1/33''"
    by (simp add: sample_links_def)
  show ?thesis
    using channel_names_nonempty
      [of match_channel_href "''1''" sample_links None "match_channel_href ''1''"
          "sample_links ! 1" "''33''"]
      get_guild_channels_sample m t h
    by simp
qed


section \<open>Properties of the teardown\<close>

lemma close_step_world:
  "snd (close_step call resource action w) = world_after call resource action w"
  by (cases resource) (auto simp: close_step_def world_after_def split: prod.splits option.splits)

lemma close_step_swallowed:
  assumes "\<forall>r action w e. fst (call r action w) = Some e \<longrightarrow> is_exception e"
  shows "swallow (fst (close_step call resource action w)) = Inr ()"
proof (cases resource)
  case None
  then show ?thesis by (simp add: close_step_def swallow_def)
next
  case (Some r)
  show ?thesis
  proof (cases "fst (call r action w)")
    case None
    with Some show ?thesis
      by (auto simp: close_step_def swallow_def split: prod.splits)
  next
    case (Some e)
    with assms have "is_exception e" by blast
    with Some \<open>resource = Some r\<close> show ?thesis
      by (auto simp: close_step_def swallow_def split: prod.splits)
  qed
qed

lemma close_loop_swallowed:
  assumes "\<forall>r action w e. fst (call r action w) = Some e \<longrightarrow> is_exception e"
  shows "close_loop call rs w
           = (Inr (), foldl (\<lambda>w (resource, action). world_after call resource action w) w rs)"
proof (induction rs arbitrary: w)
  case Nil
  show ?case by simp
next
  case (Cons ra rs)
  obtain resource action where ra: "ra = (resource, action)"
    by (cases ra)
  obtain outcome w' where s: "close_step call resource action w = (outcome, w')"
    by (cases "close_step call resource action w")
  from close_step_swallowed [OF assms, of resource action w] s
  have sw: "swallow outcome = Inr ()" by simp
  from close_step_world [of call resource action w] s
  have w': "w' = world_after call resource action w" by simp
  from ra s sw w' Cons.IH [of w'] show ?case by simp
qed

text \<open>
  C9, as stated, fails. \<open>except Exception\<close> does not catch a cancellation: a \<open>close\<close> on the
  page that raises one is made, and ends \<open>close_client\<close> with the cancellation; the three
  later calls are not made.
\<close>

theorem close_client_lets_cancellation_out:
  "close_client (recording (\<lambda>r action. if r = 3 then Some CancelledError else None))
     (session (Some 0) (Some 1) (Some 2) (Some 3)) []
   = (Inl CancelledError, [(3, ''close'')])"
  by (simp add: close_client_def session_def recording_def close_step_def swallow_def)

lemma close_client_propagates:
  assumes "fst (call p ''close'' w) = Some e" and "\<not> is_exception e"
  shows "close_client call (state\<lparr>cs_page := Some p\<rparr>) w = (Inl e, snd (call p ''close'' w))"
  using assms
  by (auto simp: close_client_def close_step_def swallow_def split: prod.splits)

text \<open>
  C9, amended. Whatever the state holds, and whichever of the calls raise, as long as what
  they raise is an \<open>Exception\<close>, \<open>close_client\<close> returns normally, and the world it leaves
  is the one left by \<open>close\<close> on the page, then \<open>close\<close> on the context, then \<open>close\<close> on the
  browser, then \<open>stop\<close> on the driver, each made on the world the one before left, for each
  resource the state holds; for a state holding all four, these are all four calls.
\<close>

theorem close_client_swallows_exceptions:
  assumes "\<forall>r action w e. fst (call r action w) = Some e \<longrightarrow> is_exception e"
  shows "fst (close_client call state w) = Inr ()
    \<and> snd (close_client call state w)
        = world_after call (cs_playwright state) ''stop''
            (world_after call (cs_browser state) ''close''
               (world_after call (cs_context state) ''close''
                  (world_after call (cs_page state) ''close'' w)))
    \<and> close_client call
         (state\<lparr>cs_page := Some p, cs_context := Some c, cs_browser := Some b,
                cs_playwright := Some d\<rparr>) w
        = (Inr (), snd (call d ''stop'' (snd (call b ''close'' (snd (call c ''close''
                     (snd (call p ''close'' w)))))))) "
  unfolding close_client_def close_loop_swallowed [OF assms]
  by (simp add: world_after_def)

theorem close_client_swallows_exceptions_witness:
  "close_client (recording (\<lambda>r action. if r = 2 then None else Some (Exception DriverError)))
     (session (Some 0) (Some 1) (Some 2) (Some 3)) []
   = (Inr (), [(3, ''close''), (2, ''close''), (1, ''close''), (0, ''stop'')])
   \<and> close_client (recording (\<lambda>r action. Some (Exception RuntimeError)))
     (session (Some 0) (Some 1) None (Some 3)) []
   = (Inr (), [(3, ''close''), (1, ''close''), (0, ''stop'')])"
  using close_client_swallows_exceptions
    [of "recording (\<lambda>r action. if r = 2 then None else Some (Exception DriverError))"
        "session (Some 0) (Some 1) (Some 2) (Some 3)" "[]" 3 2 1 0]
    close_client_swallows_exceptions
    [of "recording (\<lambda>r action. Some (Exception RuntimeError))"
        "session (Some 0) (Some 1) None (Some 3)" "[]" 3 2 1 0]
  by (simp add: prod_eq_iff recording_def session_def world_after_def)


section \<open>Properties of the page navigation\<close>

lemma click_next_all_visible:
  "(\<forall>k < n. visible_element d ((next_round d ^^ k) s) next_sel \<noteq> None) \<Longrightarrow>
     click_next d n s acts
       = (True, (next_round d ^^ n) s, acts @ concat (replicate n [Click next_sel, Wait 800]))"
proof (induction n arbitrary: s acts)
  case 0
  then show ?case by simp
next
  case (Suc n)
  from Suc.prems have "visible_element d ((next_round d ^^ 0) s) next_sel \<noteq> None" by blast
  then obtain e where e: "visible_element d s next_sel = Some e" by auto
  then have nr: "next_round d s = wait_for_timeout d 800 (click d e s)"
    by (simp add: next_round_def)
  have "\<forall>k < n. visible_element d ((next_round d ^^ k) (next_round d s)) next_sel \<noteq> None"
  proof (intro allI impI)
    fix k assume "k < n"
    then have "visible_element d ((next_round d ^^ Suc k) s) next_sel \<noteq> None"
      using Suc.prems by (metis Suc_mono)
    then show "visible_element d ((next_round d ^^ k) (next_round d s)) next_sel \<noteq> None"
      by (simp add: funpow_swap1)
  qed
  from Suc.IH [OF this, of "acts @ [Click next_sel, Wait 800]"] e nr
  show ?case by (simp add: funpow_swap1)
qed

lemma click_next_disappears:
  "k < n \<Longrightarrow> (\<forall>j < k. visible_element d ((next_round d ^^ j) s) next_sel \<noteq> None) \<Longrightarrow>
     visible_element d ((next_round d ^^ k) s) next_sel = None \<Longrightarrow>
     click_next d n s acts
       = (False, (next_round d ^^ k) s, acts @ concat (replicate k [Click next_sel, Wait 800]))"
proof (induction n arbitrary: s acts k)
  case 0
  then show ?case by simp
next
  case (Suc n)
  show ?case
  proof (cases k)
    case 0
    with Suc.prems show ?thesis by simp
  next
    case (Suc k')
    from Suc.prems(2) Suc have "visible_element d ((next_round d ^^ 0) s) next_sel \<noteq> None" by blast
    then obtain e where e: "visible_element d s next_sel = Some e" by auto
    then have nr: "next_round d s = wait_for_timeout d 800 (click d e s)"
      by (simp add: next_round_def)
    have a: "k' < n" using Suc.prems(1) Suc by simp
    have b: "\<forall>j < k'. visible_element d ((next_round d ^^ j) (next_round d s)) next_sel \<noteq> None"
    proof (intro allI impI)
      fix j assume "j < k'"
      then have "visible_element d ((next_round d ^^ Suc j) s) next_sel \<noteq> None"
        using Suc.prems(2) Suc by (metis Suc_mono)
      then show "visible_element d ((next_round d ^^ j) (next_round d s)) next_sel \<noteq> None"
        by (simp add: funpow_swap1)
    qed
    have c: "visible_element d ((next_round d ^^ k') (next_round d s)) next_sel = None"
      using Suc.prems(3) Suc by (simp add: funpow_swap1)
    from Suc.IH [OF a b c, of "acts @ [Click next_sel, Wait 800]"] e nr Suc
    show ?thesis by (simp add: funpow_swap1)
  qed
qed

text \<open>
  C8. With target page 1 the function answers true at once: no query, no action. For a
  target page of 2 or more on a page showing neither the direct page button nor the
  ellipsis control: if Next is visible in each of the first \<open>target_page - 1\<close> rounds, it
  is clicked exactly \<open>target_page - 1\<close> times (each click followed by its wait) and the
  answer is true; if Next is missing in round \<open>k\<close>, before the target is reached, the
  answer is false after \<open>k\<close> clicks. With target page 3 and Next visible twice, the actions
  are exactly two clicks on Next.
\<close>

theorem navigate_next_clicks:
  "navigate_to_search_page d 1 s = (True, s, [])
   \<and> (2 \<le> target_page \<and> visible_element d s (page_button_sel target_page) = None
        \<and> visible_element d s ellipsis_sel = None \<longrightarrow>
        ((\<forall>k < nat (target_page - 1). visible_element d ((next_round d ^^ k) s) next_sel \<noteq> None) \<longrightarrow>
           navigate_to_search_page d target_page s
             = (True, (next_round d ^^ nat (target_page - 1)) s,
                concat (replicate (nat (target_page - 1)) [Click next_sel, Wait 800])))
        \<and> (\<forall>k < nat (target_page - 1).
              (\<forall>j < k. visible_element d ((next_round d ^^ j) s) next_sel \<noteq> None)
              \<and> visible_element d ((next_round d ^^ k) s) next_sel = None \<longrightarrow>
              navigate_to_search_page d target_page s
                = (False, (next_round d ^^ k) s, concat (replicate k [Click next_sel, Wait 800]))))
   \<and> (visible_element d s (page_button_sel 3) = None \<and> visible_element d s ellipsis_sel = None
        \<and> visible_element d s next_sel \<noteq> None
        \<and> visible_element d (next_round d s) next_sel \<noteq> None \<longrightarrow>
        navigate_to_search_page d 3 s
          = (True, next_round d (next_round d s),
             [Click next_sel, Wait 800, Click next_sel, Wait 800]))"
proof (intro conjI impI allI)
  show "navigate_to_search_page d 1 s = (True, s, [])"
    by (simp add: navigate_to_search_page_def)
next
  assume h: "2 \<le> target_page \<and> visible_element d s (page_button_sel target_page) = None
             \<and> visible_element d s ellipsis_sel = None"
    and v: "\<forall>k < nat (target_page - 1). visible_element d ((next_round d ^^ k) s) next_sel \<noteq> None"
  have "navigate_to_search_page d target_page s = click_next d (nat (target_page - 1)) s []"
    using h by (simp add: navigate_to_search_page_def)
  then show "navigate_to_search_page d target_page s
               = (True, (next_round d ^^ nat (target_page - 1)) s,
                  concat (replicate (nat (target_page - 1)) [Click next_sel, Wait 800]))"
    using click_next_all_visible [OF v, of "[]"] by simp
next
  fix k
  assume h: "2 \<le> target_page \<and> visible_element d s (page_button_sel target_page) = None
             \<and> visible_element d s ellipsis_sel = None"
    and k: "k < nat (target_page - 1)"
    and v: "(\<forall>j < k. visible_element d ((next_round d ^^ j) s) next_sel \<noteq> None)
            \<and> visible_element d ((next_round d ^^ k) s) next_sel = None"
  have "navigate_to_search_page d target_page s = click_next d (nat (target_page - 1)) s []"
    using h by (simp add: navigate_to_search_page_def)
  then show "navigate_to_search_page d target_page s
               = (False, (next_round d ^^ k) s, concat (replicate k [Click next_sel, Wait 800]))"
    using click_next_disappears [OF k, of d s "[]"] v by simp
next
  assume h: "visible_element d s (page_button_sel 3) = None \<and> visible_element d s ellipsis_sel = None
             \<and> visible_element d s next_sel \<noteq> None
             \<and> visible_element d (next_round d s) next_sel \<noteq> None"
  have v: "\<forall>k < 2. visible_element d ((next_round d ^^ k) s) next_sel \<noteq> None"
    using h by (auto simp: less_Suc_eq numeral_2_eq_2)
  have "navigate_to_search_page d 3 s = click_next d 2 s []"
    using h by (simp add: navigate_to_search_page_def)
  then show "navigate_to_search_page d 3 s
               = (True, next_round d (next_round d s),
                  [Click next_sel, Wait 800, Click next_sel, Wait 800])"
    using click_next_all_visible [OF v, of "[]"] by (simp add: numeral_2_eq_2)
qed

lemma counting_page_visible:
  "visible_element (counting_page pages) s sel
     = (if sel = next_sel \<and> s < pages then Some sel else None)"
  by (simp add: visible_element_def counting_page_def)

lemma selectors_differ: "page_button_sel 3 \<noteq> next_sel" "ellipsis_sel \<noteq> next_sel"
  by (simp_all add: page_button_sel_def next_sel_def ellipsis_sel_def)

lemma counting_page_round:
  "next_round (counting_page pages) s = (if s < pages then Suc s else s)"
  by (simp add: next_round_def counting_page_visible) (simp add: counting_page_def)

theorem navigate_next_clicks_witness:
  "navigate_to_search_page (counting_page 5) 3 0
     = (True, 2, [Click next_sel, Wait 800, Click next_sel, Wait 800])
   \<and> navigate_to_search_page (counting_page 1) 3 0 = (False, 1, [Click next_sel, Wait 800])
   \<and> navigate_to_search_page (counting_page 5) 1 0 = (True, 0, [])"
proof -
  have a: "navigate_to_search_page (counting_page 5) 3 0
             = (True, 2, [Click next_sel, Wait 800, Click next_sel, Wait 800])"
    using navigate_next_clicks [of "counting_page 5" 0 3] selectors_differ
    by (simp add: counting_page_visible counting_page_round)
  have b: "navigate_to_search_page (counting_page 1) 3 0 = (False, 1, [Click next_sel, Wait 800])"
  proof -
    have "(1::nat) < nat (3 - 1)" by simp
    moreover have "(\<forall>j < (1::nat). visible_element (counting_page 1) ((next_round (counting_page 1) ^^ j) 0) next_sel \<noteq> None)
        \<and> visible_element (counting_page 1) ((next_round (counting_page 1) ^^ 1) 0) next_sel = None"
      by (simp add: counting_page_visible counting_page_round)
    moreover have "(2::int) \<le> 3 \<and> visible_element (counting_page 1) 0 (page_button_sel 3) = None
        \<and> visible_element (counting_page 1) 0 ellipsis_sel = None"
      using selectors_differ by (simp add: counting_page_visible)
    ultimately have "navigate_to_search_page (counting_page 1) 3 0
        = (False, (next_round (counting_page 1) ^^ 1) 0,
           concat (replicate 1 [Click next_sel, Wait 800]))"
      using navigate_next_clicks [of "counting_page 1" 0 3] by blast
    then show ?thesis by (simp add: counting_page_round)
  qed
  have c: "navigate_to_search_page (counting_page 5) 1 0 = (True, 0, [])"
    using navigate_next_clicks [of "counting_page 5" 0 1] by simp
  from a b c show ?thesis by simp
qed


section \<open>Properties of the message history\<close>

lemma walk_elements_bounds:
  "\<forall>m \<in> set messages. within_bounds before after m \<Longrightarrow>
     \<forall>m \<in> set (fst (walk_elements ex chan limit before after elements messages seen_ids)).
        within_bounds before after m"
proof (induction elements arbitrary: messages seen_ids)
  case Nil
  then show ?case by simp
next
  case (Cons element rest)
  let ?walk = "walk_elements ex chan limit before after"
  show ?case
  proof (cases "int (length messages) \<ge> limit")
    case True
    then show ?thesis using Cons.prems by simp
  next
    case False
    show ?thesis
    proof (cases "ex element chan (card seen_ids)")
      case None
      then have "?walk (element # rest) messages seen_ids = ?walk rest messages seen_ids"
        using False by simp
      then show ?thesis using Cons.IH [OF Cons.prems] by simp
    next
      case (Some message)
      show ?thesis
      proof (cases "m_id message \<notin> seen_ids \<and> \<not> (truthy before \<and> m_id message \<ge> the before)
                    \<and> \<not> (truthy after \<and> m_id message \<le> the after)")
        case True
        then have eq: "?walk (element # rest) messages seen_ids
                         = ?walk rest (messages @ [message]) (insert (m_id message) seen_ids)"
          using False Some by auto
        from True have "within_bounds before after message"
          by (auto simp: within_bounds_def not_le)
        then have "\<forall>m \<in> set (messages @ [message]). within_bounds before after m"
          using Cons.prems by simp
        from Cons.IH [OF this] show ?thesis unfolding eq by simp
      next
        case drop: False
        then have eq: "?walk (element # rest) messages seen_ids = ?walk rest messages seen_ids"
          using False Some by auto
        from Cons.IH [OF Cons.prems] show ?thesis unfolding eq by simp
      qed
    qed
  qed
qed

lemma read_attempts_bounds:
  "\<forall>m \<in> set messages. within_bounds before after m \<Longrightarrow>
     \<forall>m \<in> set (fst (read_attempts snapshots ex chan limit before after attempt
                       messages seen_ids)). within_bounds before after m"
proof (induction snapshots ex chan limit before after attempt messages seen_ids
    rule: read_attempts.induct)
  case (1 snapshots ex chan limit before after attempt messages seen_ids)
  let ?read = "read_attempts snapshots ex chan limit before after"
  show ?case
  proof (cases "attempt < 10")
    case False
    then have "?read attempt messages seen_ids = (messages, seen_ids)"
      by (subst read_attempts.simps) simp
    then show ?thesis using "1.prems" by simp
  next
    case True
    show ?thesis
    proof (cases "snapshots attempt = []")
      case e: True
      have eq: "?read attempt messages seen_ids = ?read (Suc attempt) messages seen_ids"
        using True e by (subst read_attempts.simps) simp
      show ?thesis unfolding eq using "1.IH"(1) [OF True refl e "1.prems"] .
    next
      case ne: False
      obtain ms ss where w: "walk_elements ex chan limit before after (rev (snapshots attempt))
                               messages seen_ids = (ms, ss)"
        by (cases "walk_elements ex chan limit before after (rev (snapshots attempt))
                     messages seen_ids")
      have ms: "\<forall>m \<in> set ms. within_bounds before after m"
        using walk_elements_bounds [OF "1.prems", of ex chan limit "rev (snapshots attempt)" seen_ids] w
        by simp
      show ?thesis
      proof (cases "int (length ms) \<ge> limit")
        case full: True
        have eq: "?read attempt messages seen_ids = (ms, ss)"
          using True ne w full by (subst read_attempts.simps) simp
        show ?thesis unfolding eq using ms by simp
      next
        case more: False
        have eq: "?read attempt messages seen_ids = ?read (Suc attempt) ms ss"
          using True ne w more by (subst read_attempts.simps) simp
        show ?thesis unfolding eq
          using "1.IH"(2) [OF True refl ne w [symmetric] more ms] .
      qed
    qed
  qed
qed

lemma py_slice_subset: "set (py_slice xs i j) \<subseteq> set xs"
  unfolding py_slice_def Let_def
  by (meson set_take_subset set_drop_subset subset_trans)

lemma returned_subset:
  assumes "get_channel_messages snapshots ex chan limit before after = Inr result"
  shows "set result \<subseteq> set (fst (read_attempts snapshots ex chan limit before after 0 [] {}))"
proof -
  let ?ms = "fst (read_attempts snapshots ex chan limit before after 0 [] {})"
  from assms obtain sorted_messages where s: "sorted_by_timestamp ?ms = Inr sorted_messages"
    and r: "result = py_slice sorted_messages 0 limit"
    by (auto simp: get_channel_messages_def split: sum.splits)
  from s have "set sorted_messages = set ?ms"
    by (auto simp: sorted_by_timestamp_def split: if_splits)
  with r py_slice_subset [of sorted_messages 0 limit] show ?thesis by simp
qed

text \<open>
  C2. When the call returns a list and \<open>before\<close> is a non-empty string, every returned
  message has an id strictly below it in the lexicographic order of strings; when \<open>after\<close>
  is a non-empty string, every returned message has an id strictly above it.
\<close>

theorem returned_ids_within_bounds:
  "get_channel_messages snapshots ex chan limit before after = Inr result \<Longrightarrow>
     (truthy before \<longrightarrow> (\<forall>m \<in> set result. m_id m < the before))
     \<and> (truthy after \<longrightarrow> (\<forall>m \<in> set result. the after < m_id m))"
proof -
  assume r: "get_channel_messages snapshots ex chan limit before after = Inr result"
  have "\<forall>m \<in> set (fst (read_attempts snapshots ex chan limit before after 0 [] {})).
          within_bounds before after m"
    by (rule read_attempts_bounds) simp
  with returned_subset [OF r] have "\<forall>m \<in> set result. within_bounds before after m"
    by blast
  then show ?thesis by (simp add: within_bounds_def)
qed

lemma read_attempts_done:
  "\<not> attempt < 10 \<Longrightarrow>
     read_attempts snapshots ex chan limit before after attempt messages seen_ids
       = (messages, seen_ids)"
  by (subst read_attempts.simps) simp

lemma read_attempts_empty:
  "attempt < 10 \<Longrightarrow> snapshots attempt = [] \<Longrightarrow>
     read_attempts snapshots ex chan limit before after attempt messages seen_ids
       = read_attempts snapshots ex chan limit before after (Suc attempt) messages seen_ids"
  by (subst read_attempts.simps) simp

lemma read_attempts_walk:
  "attempt < 10 \<Longrightarrow> snapshots attempt \<noteq> [] \<Longrightarrow>
     read_attempts snapshots ex chan limit before after attempt messages seen_ids
       = (if limit \<le> int (length (fst (walk_elements ex chan limit before after
                                          (rev (snapshots attempt)) messages seen_ids)))
          then walk_elements ex chan limit before after (rev (snapshots attempt))
                 messages seen_ids
          else read_attempts snapshots ex chan limit before after (Suc attempt)
                 (fst (walk_elements ex chan limit before after (rev (snapshots attempt))
                         messages seen_ids))
                 (snd (walk_elements ex chan limit before after (rev (snapshots attempt))
                         messages seen_ids)))"
  by (subst read_attempts.simps) (simp add: case_prod_unfold Let_def)

lemma sample_walk_0:
  "walk_elements (\<lambda>element chan collected. element) ''7'' 2 (Some ''250'') None
     (rev (sample_snapshots 0)) [] {}
   = ([msg ''200'' 2, msg ''100'' 1], {''100'', ''200''})"
  by (simp add: sample_snapshots_def msg_def)

lemma get_channel_messages_sample:
  "get_channel_messages sample_snapshots (\<lambda>element chan collected. element) ''7'' 2
     (Some ''250'') None
   = Inr [msg ''200'' 2, msg ''100'' 1]"
proof -
  have "sample_snapshots 0 \<noteq> []" by (simp add: sample_snapshots_def)
  then have "read_attempts sample_snapshots (\<lambda>element chan collected. element) ''7'' 2
               (Some ''250'') None 0 [] {}
             = ([msg ''200'' 2, msg ''100'' 1], {''100'', ''200''})"
    by (simp add: read_attempts_walk sample_walk_0)
  then show ?thesis
    by (simp add: get_channel_messages_def sorted_by_timestamp_def msg_def py_slice_def
        slice_bound_def Let_def)
qed

theorem returned_ids_within_bounds_witness:
  "get_channel_messages sample_snapshots (\<lambda>element chan collected. element) ''7'' 2
     (Some ''250'') None
   = Inr [msg ''200'' 2, msg ''100'' 1]
   \<and> truthy (Some ''250'')
   \<and> list_all (\<lambda>m. m_id m < the (Some ''250'')) [msg ''200'' 2, msg ''100'' 1]"
  using returned_ids_within_bounds [OF get_channel_messages_sample] get_channel_messages_sample
  by simp

lemma sorted_by_timestamp_sorted:
  assumes "sorted_by_timestamp messages = Inr sorted_messages"
  shows "sorted_wrt (\<lambda>a b. later_or_equal (m_timestamp a) (m_timestamp b)) sorted_messages"
proof -
  let ?k = "\<lambda>m. - dt_key (m_timestamp m)"
  let ?mixed = "(\<exists>m \<in> set messages. is_aware (m_timestamp m))
                \<and> (\<exists>m \<in> set messages. \<not> is_aware (m_timestamp m))"
  have nm: "\<not> ?mixed"
  proof
    assume ?mixed
    then have "sorted_by_timestamp messages = Inl TypeError"
      unfolding sorted_by_timestamp_def by (rule if_P)
    with assms show False by simp
  qed
  then have "sorted_by_timestamp messages = Inr (sort_key ?k messages)"
    unfolding sorted_by_timestamp_def by (rule if_not_P)
  with assms have s: "sorted_messages = sort_key ?k messages" by simp
  from nm have same: "\<And>a b. a \<in> set messages \<Longrightarrow> b \<in> set messages \<Longrightarrow>
      is_aware (m_timestamp a) = is_aware (m_timestamp b)"
    by blast
  have "sorted (map ?k sorted_messages)"
    unfolding s by (rule sorted_sort_key)
  then have k: "sorted_wrt (\<lambda>a b. ?k a \<le> ?k b) sorted_messages"
    by (simp only: sorted_map)
  show ?thesis
  proof (rule sorted_wrt_mono_rel [OF _ k])
    fix a b assume a: "a \<in> set sorted_messages" and b: "b \<in> set sorted_messages"
      and le: "?k a \<le> ?k b"
    from a b have "a \<in> set messages" "b \<in> set messages"
      unfolding s by simp_all
    then have "is_aware (m_timestamp a) = is_aware (m_timestamp b)"
      by (rule same)
    with le show "later_or_equal (m_timestamp a) (m_timestamp b)"
      by (simp add: later_or_equal_def)
  qed
qed

lemma py_slice_prefix:
  assumes "0 \<le> limit"
  shows "py_slice xs 0 limit = take (nat limit) xs"
proof (cases "limit \<le> int (length xs)")
  case True
  then have "min limit (int (length xs)) = limit" by simp
  then show ?thesis using assms by (simp add: py_slice_def slice_bound_def Let_def)
next
  case False
  then have m: "min limit (int (length xs)) = int (length xs)" by simp
  from False have "length xs \<le> nat limit" by simp
  then show ?thesis using assms m by (simp add: py_slice_def slice_bound_def Let_def)
qed

text \<open>
  C3. For a limit that is not negative, so for every limit from 1 to 1000, a returned list
  is in descending order of timestamp (each message is not earlier than every message
  after it) and has at most \<open>limit\<close> messages.
\<close>

theorem returned_sorted_within_limit:
  "0 \<le> limit \<Longrightarrow>
   get_channel_messages snapshots ex chan limit before after = Inr result \<Longrightarrow>
     sorted_wrt (\<lambda>a b. later_or_equal (m_timestamp a) (m_timestamp b)) result
     \<and> int (length result) \<le> limit"
proof -
  assume l: "0 \<le> limit"
    and r: "get_channel_messages snapshots ex chan limit before after = Inr result"
  let ?ms = "fst (read_attempts snapshots ex chan limit before after 0 [] {})"
  from r obtain sorted_messages where s: "sorted_by_timestamp ?ms = Inr sorted_messages"
    and res: "result = py_slice sorted_messages 0 limit"
    by (auto simp: get_channel_messages_def split: sum.splits)
  have t: "result = take (nat limit) sorted_messages"
    using res py_slice_prefix [OF l] by simp
  have "sorted_wrt (\<lambda>a b. later_or_equal (m_timestamp a) (m_timestamp b)) result"
    unfolding t using sorted_by_timestamp_sorted [OF s] by (rule sorted_wrt_take)
  moreover have "int (length result) \<le> limit"
    unfolding t using l by simp
  ultimately show ?thesis by simp
qed

lemma sample_walk_more_0:
  "walk_elements (\<lambda>element chan collected. element) ''7'' 4 None (Some ''050'')
     (rev (sample_snapshots 0)) [] {}
   = ([msg ''300'' 3, msg ''200'' 2, msg ''100'' 1], {''100'', ''200'', ''300''})"
  by (simp add: sample_snapshots_def msg_def insert_commute)

lemma sample_walk_more_1:
  "walk_elements (\<lambda>element chan collected. element) ''7'' 4 None (Some ''050'')
     (rev (sample_snapshots (Suc 0))) [msg ''300'' 3, msg ''200'' 2, msg ''100'' 1]
     {''100'', ''200'', ''300''}
   = ([msg ''300'' 3, msg ''200'' 2, msg ''100'' 1], {''100'', ''200'', ''300''})"
  by (simp add: sample_snapshots_def msg_def)

lemma get_channel_messages_sample_more:
  "get_channel_messages sample_snapshots (\<lambda>element chan collected. element) ''7'' 4
     None (Some ''050'')
   = Inr [msg ''300'' 3, msg ''200'' 2, msg ''100'' 1]"
proof -
  have s: "sample_snapshots 0 \<noteq> []" "sample_snapshots (Suc 0) \<noteq> []"
    "\<And>n. sample_snapshots (Suc (Suc n)) = []"
    by (simp_all add: sample_snapshots_def)
  have "read_attempts sample_snapshots (\<lambda>element chan collected. element) ''7'' 4
               None (Some ''050'') 0 [] {}
             = ([msg ''300'' 3, msg ''200'' 2, msg ''100'' 1], {''100'', ''200'', ''300''})"
    by (simp add: read_attempts_walk read_attempts_empty read_attempts_done s
        sample_walk_more_0 sample_walk_more_1 eval_nat_numeral)
  then show ?thesis
    by (simp add: get_channel_messages_def sorted_by_timestamp_def msg_def py_slice_def
        slice_bound_def Let_def)
qed

theorem returned_sorted_within_limit_witness:
  "(0::int) \<le> 4
   \<and> get_channel_messages sample_snapshots (\<lambda>element chan collected. element) ''7'' 4
        None (Some ''050'')
      = Inr [msg ''300'' 3, msg ''200'' 2, msg ''100'' 1]
   \<and> sorted_wrt (\<lambda>a b. later_or_equal (m_timestamp a) (m_timestamp b))
        [msg ''300'' 3, msg ''200'' 2, msg ''100'' 1]
   \<and> int (length [msg ''300'' 3, msg ''200'' 2, msg ''100'' 1]) \<le> 4"
proof -
  have l: "(0::int) \<le> 4" by simp
  show ?thesis
    using returned_sorted_within_limit [OF l get_channel_messages_sample_more]
      get_channel_messages_sample_more
    by simp
qed


section \<open>Properties of the search results\<close>

lemma py_slice_take: "py_slice xs 0 (int n) = take n xs"
  by (cases "n \<le> length xs") (simp_all add: py_slice_def slice_bound_def Let_def min_def)

lemma content_key_eq:
  "content_key result = sr_author result @ '':'' @ take 50 (sr_content result)"
  using py_slice_take [of "sr_content result" 50] by (simp add: content_key_def)

lemma result_message_key:
  "m_author_name (result_message clock in_channels n result) @ '':'' @
     take 50 (m_content (result_message clock in_channels n result)) = content_key result"
  by (simp add: result_message_def content_key_eq)

lemma scan_results_inv:
  assumes "scan_results clock in_channels limit results messages seen = (messages', seen')"
    and "seen = (\<lambda>m. m_author_name m @ '':'' @ take 50 (m_content m)) ` set messages"
    and "distinct (map (\<lambda>m. m_author_name m @ '':'' @ take 50 (m_content m)) messages)"
  shows "seen' = (\<lambda>m. m_author_name m @ '':'' @ take 50 (m_content m)) ` set messages'
         \<and> distinct (map (\<lambda>m. m_author_name m @ '':'' @ take 50 (m_content m)) messages')"
  using assms
proof (induction results arbitrary: messages seen)
  case Nil
  then show ?case by auto
next
  case (Cons result rest)
  show ?case
  proof (cases "int (length messages) \<ge> limit")
    case True
    with Cons.prems show ?thesis by auto
  next
    case False
    show ?thesis
    proof (cases "content_key result \<in> seen")
      case True
      with False Cons.prems(1)
      have "scan_results clock in_channels limit rest messages seen = (messages', seen')"
        by simp
      from Cons.IH [OF this Cons.prems(2) Cons.prems(3)] show ?thesis .
    next
      case fresh: False
      let ?m = "result_message clock in_channels (length messages) result"
      from False fresh Cons.prems(1)
      have run: "scan_results clock in_channels limit rest (messages @ [?m])
                   (insert (content_key result) seen) = (messages', seen')"
        by simp
      have s: "insert (content_key result) seen
                 = (\<lambda>m. m_author_name m @ '':'' @ take 50 (m_content m)) ` set (messages @ [?m])"
        using Cons.prems(2) result_message_key [of clock in_channels "length messages" result]
        by auto
      have d: "distinct (map (\<lambda>m. m_author_name m @ '':'' @ take 50 (m_content m))
                           (messages @ [?m]))"
        using Cons.prems(2) Cons.prems(3) fresh
          result_message_key [of clock in_channels "length messages" result]
        by auto
      from Cons.IH [OF run s d] show ?thesis .
    qed
  qed
qed

lemma collect_results_inv:
  assumes "collect_results clock in_channels limit results_data scroll_attempts messages seen
             = (messages', seen')"
    and "seen = (\<lambda>m. m_author_name m @ '':'' @ take 50 (m_content m)) ` set messages"
    and "distinct (map (\<lambda>m. m_author_name m @ '':'' @ take 50 (m_content m)) messages)"
  shows "distinct (map (\<lambda>m. m_author_name m @ '':'' @ take 50 (m_content m)) messages')"
  using assms
proof (induction clock in_channels limit results_data scroll_attempts messages seen
         rule: collect_results.induct)
  case (1 clock in_channels limit results_data scroll_attempts messages seen)
  show ?case
  proof (cases "int (length messages) < limit \<and> scroll_attempts < 5")
    case False
    with "1.prems"(1) have "messages' = messages"
      by (subst (asm) collect_results.simps) simp
    with "1.prems"(3) show ?thesis by simp
  next
    case True
    obtain ms sc where w:
      "scan_results clock in_channels limit (results_data scroll_attempts) messages seen = (ms, sc)"
      by (cases "scan_results clock in_channels limit (results_data scroll_attempts) messages seen")
    from scan_results_inv [OF w "1.prems"(2) "1.prems"(3)]
    have s: "sc = (\<lambda>m. m_author_name m @ '':'' @ take 50 (m_content m)) ` set ms"
      and d: "distinct (map (\<lambda>m. m_author_name m @ '':'' @ take 50 (m_content m)) ms)"
      by simp_all
    show ?thesis
    proof (cases "int (length ms) \<ge> limit")
      case full: True
      with True w "1.prems"(1) have "messages' = ms"
        by (subst (asm) collect_results.simps) simp
      with d show ?thesis by simp
    next
      case more: False
      with True w "1.prems"(1)
      have run: "collect_results clock in_channels limit results_data (Suc scroll_attempts) ms sc
                   = (messages', seen')"
        by (subst (asm) collect_results.simps) simp
      from "1.IH" [OF True w [symmetric] more run s d] show ?thesis .
    qed
  qed
qed

lemma distinct_string_key_imp_pair_key:
  assumes "distinct (map (\<lambda>m. m_author_name m @ '':'' @ take 50 (m_content m)) ms)"
  shows "distinct (map message_key ms)"
proof -
  have inj: "inj_on (\<lambda>m. m_author_name m @ '':'' @ take 50 (m_content m)) (set ms)"
    and dist: "distinct ms"
    using assms by (simp_all add: distinct_map)
  have "inj_on message_key (set ms)"
  proof (rule inj_onI)
    fix a b
    assume a: "a \<in> set ms" and b: "b \<in> set ms" and k: "message_key a = message_key b"
    from k have "m_author_name a @ '':'' @ take 50 (m_content a)
                   = m_author_name b @ '':'' @ take 50 (m_content b)"
      by (simp add: message_key_def)
    with inj a b show "a = b" by (auto dest: inj_onD)
  qed
  with dist show ?thesis by (simp add: distinct_map)
qed

lemma distinct_py_slice:
  assumes "distinct (map f xs)"
  shows "distinct (map f (py_slice xs i j))"
proof -
  have "map f (py_slice xs i j) = py_slice (map f xs) i j"
    by (simp add: py_slice_def Let_def take_map drop_map)
  moreover have "distinct (py_slice (map f xs) i j)"
    using assms by (simp add: py_slice_def Let_def)
  ultimately show ?thesis by simp
qed

text \<open>
  C6. No two entries of the list \<open>search_messages\<close> returns share the author and the first
  50 characters of the content, whatever the script returned in each scroll attempt and in
  whatever order; nor do two entries share the key string the loop builds from them.
\<close>

theorem search_results_deduplicated:
  "distinct (map message_key (search_messages clock in_channels limit results_data))
   \<and> distinct (map (\<lambda>m. m_author_name m @ '':'' @ take 50 (m_content m))
                 (search_messages clock in_channels limit results_data))"
proof -
  obtain ms sc where c: "collect_results clock in_channels limit results_data 0 [] {} = (ms, sc)"
    by (cases "collect_results clock in_channels limit results_data 0 [] {}")
  have "distinct (map (\<lambda>m. m_author_name m @ '':'' @ take 50 (m_content m)) ms)"
    by (rule collect_results_inv [OF c]) simp_all
  then have d: "distinct (map (\<lambda>m. m_author_name m @ '':'' @ take 50 (m_content m))
                           (py_slice ms 0 limit))"
    by (rule distinct_py_slice)
  from d have "distinct (map message_key (py_slice ms 0 limit))"
    by (rule distinct_string_key_imp_pair_key)
  with d c show ?thesis by (simp add: search_messages_def)
qed

text \<open>
  Two records with the same author and the same first 50 characters, scraped in either
  order and again after every scroll, give one entry.
\<close>

lemma collect_results_step:
  assumes "int (length messages) < limit" "scroll_attempts < 5"
  shows "collect_results clock in_channels limit results_data scroll_attempts messages seen =
           (case scan_results clock in_channels limit (results_data scroll_attempts) messages seen of
              (messages', seen') \<Rightarrow>
                if int (length messages') \<ge> limit then (messages', seen')
                else collect_results clock in_channels limit results_data (Suc scroll_attempts)
                       messages' seen')"
  using assms by (subst collect_results.simps) simp

lemma collect_results_stop:
  assumes "\<not> scroll_attempts < 5"
  shows "collect_results clock in_channels limit results_data scroll_attempts messages seen =
           (messages, seen)"
  using assms by (subst collect_results.simps) simp

lemma search_messages_sample:
  "map message_key
     (search_messages (\<lambda>n. 0) None 10
        (\<lambda>k. [hit ''ann'' ''hello'' ''a'', hit ''ann'' ''hello'' ''b'', hit ''bob'' ''hello'' ''a'']))
     = [(''ann'', ''hello''), (''bob'', ''hello'')]"
  "map m_channel_id
     (search_messages (\<lambda>n. 0) None 10
        (\<lambda>k. [hit ''ann'' ''hello'' ''a'', hit ''ann'' ''hello'' ''b'', hit ''bob'' ''hello'' ''a'']))
     = [''a'', ''a'']"
  "map message_key
     (search_messages (\<lambda>n. 0) None 10
        (\<lambda>k. [hit ''ann'' ''hello'' ''b'', hit ''bob'' ''hello'' ''a'', hit ''ann'' ''hello'' ''a'']))
     = [(''ann'', ''hello''), (''bob'', ''hello'')]"
  "map m_channel_id
     (search_messages (\<lambda>n. 0) None 10
        (\<lambda>k. [hit ''ann'' ''hello'' ''b'', hit ''bob'' ''hello'' ''a'', hit ''ann'' ''hello'' ''a'']))
     = [''b'', ''a'']"
  by (simp_all add: search_messages_def collect_results_step collect_results_stop content_key_eq
        hit_def result_message_def message_key_def py_slice_def slice_bound_def)

theorem search_results_deduplicated_witness:
  "distinct (map message_key
     (search_messages (\<lambda>n. 0) None 10
        (\<lambda>k. [hit ''ann'' ''hello'' ''a'', hit ''ann'' ''hello'' ''b'', hit ''bob'' ''hello'' ''a''])))
   \<and> map message_key
     (search_messages (\<lambda>n. 0) None 10
        (\<lambda>k. [hit ''ann'' ''hello'' ''a'', hit ''ann'' ''hello'' ''b'', hit ''bob'' ''hello'' ''a'']))
     = [(''ann'', ''hello''), (''bob'', ''hello'')]
   \<and> map message_key
     (search_messages (\<lambda>n. 0) None 10
        (\<lambda>k. [hit ''ann'' ''hello'' ''b'', hit ''bob'' ''hello'' ''a'', hit ''ann'' ''hello'' ''a'']))
     = [(''ann'', ''hello''), (''bob'', ''hello'')]"
  using search_results_deduplicated [of "\<lambda>n. 0" None 10
          "\<lambda>k. [hit ''ann'' ''hello'' ''a'', hit ''ann'' ''hello'' ''b'', hit ''bob'' ''hello'' ''a'']"]
    search_messages_sample(1) search_messages_sample(3)
  by simp


section \<open>Properties of the message chunking\<close>

lemma split_on_not_Nil: "split_on sep s \<noteq> []"
  by (induction s) (auto split: list.splits)

lemma split_on_absent: "sep \<notin> set s \<Longrightarrow> split_on sep s = [s]"
  by (induction s) auto

lemma split_on_append: "sep \<notin> set u \<Longrightarrow> split_on sep (u @ sep # v) = u # split_on sep v"
  by (induction u) auto











text \<open>An over-long word after a shorter one is not cut: it becomes a chunk as it is.\<close>

lemma message_chunks_long_second_word:
  "message_chunks (''a '' @ replicate 4498 CHR ''b'') = [''a'', replicate 4498 CHR ''b'']"
  using split_on_append [of "CHR '' ''" "''a''" "replicate 4498 CHR ''b''"]
  by (simp add: message_chunks_def split_on_absent add_to_chunk_def)

lemma sample_content_words:
  "split_on (CHR '' '') sample_content
     = [replicate 2000 CHR ''a'', replicate 2000 CHR ''b'', replicate 498 CHR ''c'']"
  by (simp add: sample_content_def split_on_append split_on_absent)

lemma sample_content_chunks:
  "message_chunks sample_content
     = [[], replicate 2000 CHR ''a'', replicate 2000 CHR ''b'', replicate 498 CHR ''c'']"
proof -
  have "length sample_content = 4500" "CHR 0x0A \<notin> set sample_content"
    by (simp_all add: sample_content_def)
  then show ?thesis
    by (simp add: message_chunks_def split_on_absent sample_content_words add_to_chunk_def
          py_slice_def slice_bound_def)
qed




end
